theory Spec2Isabelle
  imports
    Main
    "HOL-Library.AList"
    "HOL-Library.Sublist"
    "HOL-Library.Char_ord"
    "HOL-Library.List_Lexorder"
    "HOL-Library.Multiset"
begin

section \<open>Module levels of the logging package (common/flogging/modulelevels.go)\<close>

text \<open>
  The file tracks the logging level of hierarchically named loggers: \<open>ActivateSpec\<close>
  parses a logging specification into a default level and a map of overrides,
  \<open>Level\<close> resolves a logger name against them (with a cache), and \<open>Spec\<close> renders
  the active specification. Go strings are byte strings, so they are \<open>string\<close> here
  (a list of 8-bit \<open>char\<close>), ordered bytewise and lexicographically as Go's \<open><\<close> on
  strings is (the orders of \<open>Char_ord\<close> and \<open>List_Lexorder\<close>).
\<close>

subsection \<open>The functions of package strings that the file calls\<close>

text \<open>
  Every separator the file passes is a one-byte string literal, so the separator is a
  \<open>char\<close>. \<open>strings.Split\<close> returns the pieces between the separators, and one
  piece (the whole string, also when it is empty) when there is no separator.
  \<open>Split_from\<close> reads the string from left to right, \<open>piece\<close> being the bytes since the
  last separator.
\<close>

fun Split_from :: "string \<Rightarrow> string \<Rightarrow> char \<Rightarrow> string list" where
  "Split_from piece [] sep = [piece]"
| "Split_from piece (c # cs) sep =
     (if c = sep then piece # Split_from [] cs sep
      else Split_from (piece @ [c]) cs sep)"

definition Split :: "string \<Rightarrow> char \<Rightarrow> string list" where
  "Split s sep = Split_from [] s sep"

fun Join :: "string list \<Rightarrow> char \<Rightarrow> string" where
  "Join [] sep = []"
| "Join [x] sep = x"
| "Join (x # y # ys) sep = x @ sep # Join (y # ys) sep"

definition TrimSuffix :: "string \<Rightarrow> char \<Rightarrow> string" where
  "TrimSuffix s sfx = (if s \<noteq> [] \<and> last s = sfx then butlast s else s)"

text \<open>\<open>strings.LastIndex\<close>: the index of the last occurrence, or \<open>-1\<close>.\<close>

fun LastIndex :: "string \<Rightarrow> char \<Rightarrow> int" where
  "LastIndex [] sep = - 1"
| "LastIndex (c # cs) sep =
     (let i = LastIndex cs sep
      in if 0 \<le> i then i + 1 else if c = sep then 0 else - 1)"

subsection \<open>The severity scale\<close>

text \<open>
  The level type \<open>zapcore.Level\<close>, its constant \<open>InfoLevel\<close> and its \<open>String\<close> method
  belong to the zap library, and \<open>IsValidLevel\<close> and \<open>NameToLevel\<close> to another file of
  the package. None of them is in modulelevels.go, so the functions of this file take
  them as a parameter: a level is a value of any type \<open>'l\<close>, and a scale gives the four
  operations on it.
\<close>

record 'l scale =
  InfoLevel :: 'l
  IsValidLevel :: "string \<Rightarrow> bool"
  NameToLevel :: "string \<Rightarrow> 'l"
  LevelString :: "'l \<Rightarrow> string"

subsection \<open>The engine\<close>

text \<open>
  \<open>ModuleLevels\<close>, without its mutex. \<open>specs\<close> is a Go map that \<open>Spec\<close> ranges over
  in an unspecified order: it is an association list, the order of the list being the
  order of one iteration, looked up with \<open>map_of\<close> and assigned with \<open>AList.update\<close>
  (which keeps the keys distinct). \<open>levelCache\<close> is only read and assigned by key; it
  is a map, or \<open>None\<close> for the nil map of a zero \<open>ModuleLevels\<close> value, to which an
  assignment panics.
\<close>

record 'l ModuleLevels =
  defaultLevel :: 'l
  levelCache :: "(string \<rightharpoonup> 'l) option"
  specs :: "(string \<times> 'l) list"

datatype error =
    BadSegment string string
  | NoLoggerSpecified string string
  | BadLoggerName string string


datatype panic = AssignmentToEntryInNilMap

definition DefaultLevel :: "'l ModuleLevels \<Rightarrow> 'l" where
  "DefaultLevel m = defaultLevel m"

subsection \<open>Logger names\<close>

text \<open>
  \<open>loggerNameRegexp\<close> is \<^verbatim>\<open>^[[:alnum:]_#:-]+(\.[[:alnum:]_#:-]+)*$\<close>. The class
  \<^verbatim>\<open>[:alnum:]\<close> is the ASCII letters and digits, and \<^verbatim>\<open>$\<close> matches at the end of
  the text only. \<open>matchLoggerName\<close> is the automaton of the expression: its flag says
  that the last byte read was of the class, which is where a period may follow and
  where the text may end.
\<close>

definition isLoggerNameChar :: "char \<Rightarrow> bool" where
  "isLoggerNameChar c \<longleftrightarrow>
     (CHR ''0'' \<le> c \<and> c \<le> CHR ''9'') \<or> (CHR ''A'' \<le> c \<and> c \<le> CHR ''Z'') \<or>
     (CHR ''a'' \<le> c \<and> c \<le> CHR ''z'') \<or>
     c = CHR ''_'' \<or> c = CHR ''#'' \<or> c = CHR '':'' \<or> c = CHR ''-''"

fun matchLoggerName :: "bool \<Rightarrow> string \<Rightarrow> bool" where
  "matchLoggerName inSegment [] = inSegment"
| "matchLoggerName inSegment (c # cs) =
     (if isLoggerNameChar c then matchLoggerName True cs
      else if c = CHR ''.'' \<and> inSegment then matchLoggerName False cs
      else False)"

definition isValidLoggerName :: "string \<Rightarrow> bool" where
  "isValidLoggerName loggerName = matchLoggerName False loggerName"

subsection \<open>ActivateSpec\<close>

text \<open>
  The loop over the loggers of one segment. It assigns into the local map \<open>specs\<close> and
  returns at the first logger name that is not valid.
\<close>

fun ActivateSpec_loggers ::
  "string \<Rightarrow> 'l \<Rightarrow> string list \<Rightarrow> (string \<times> 'l) list \<Rightarrow> error + (string \<times> 'l) list" where
  "ActivateSpec_loggers spec level [] sp = Inr sp"
| "ActivateSpec_loggers spec level (logger # loggers) sp =
     (if \<not> isValidLoggerName (TrimSuffix logger CHR ''.'')
      then Inl (BadLoggerName spec logger)
      else ActivateSpec_loggers spec level loggers (AList.update logger level sp))"

text \<open>
  The loop over the fields of the specification, on the two local variables
  \<open>defaultLevel\<close> and \<open>specs\<close>. The three branches are the cases of the switch on
  \<open>len(split)\<close>; the test \<open>field != ""\<close> of the second case is written as the source
  has it.
\<close>

fun ActivateSpec_fields ::
  "'l scale \<Rightarrow> string \<Rightarrow> string list \<Rightarrow> 'l \<times> (string \<times> 'l) list \<Rightarrow>
   error + ('l \<times> (string \<times> 'l) list)" where
  "ActivateSpec_fields sc spec [] acc = Inr acc"
| "ActivateSpec_fields sc spec (field # rest) (dl, sp) =
     (let split = Split field CHR ''='' in
      if length split = 1 then
        (if field \<noteq> [] \<and> \<not> IsValidLevel sc field then Inl (BadSegment spec field)
         else ActivateSpec_fields sc spec rest (NameToLevel sc field, sp))
      else if length split = 2 then
        (if split ! 0 = [] then Inl (NoLoggerSpecified spec field)
         else if field \<noteq> [] \<and> \<not> IsValidLevel sc (split ! 1)
         then Inl (BadSegment spec field)
         else
           (case ActivateSpec_loggers spec (NameToLevel sc (split ! 1))
                   (Split (split ! 0) CHR '','') sp of
              Inl e \<Rightarrow> Inl e
            | Inr sp' \<Rightarrow> ActivateSpec_fields sc spec rest (dl, sp')))
      else Inl (BadSegment spec field))"

text \<open>
  \<open>ActivateSpec\<close> returns the error, if any, and the engine after the call: the
  method assigns the three fields only after the loop has ended without an error.
\<close>

definition ActivateSpec ::
  "'l scale \<Rightarrow> string \<Rightarrow> 'l ModuleLevels \<Rightarrow> error option \<times> 'l ModuleLevels" where
  "ActivateSpec sc spec m =
     (case ActivateSpec_fields sc spec (Split spec CHR '':'') (InfoLevel sc, []) of
        Inl e \<Rightarrow> (Some e, m)
      | Inr (dl, sp) \<Rightarrow>
          (None, m\<lparr>defaultLevel := dl, specs := sp, levelCache := Some Map.empty\<rparr>))"

subsection \<open>Level\<close>

text \<open>
  The loop of \<open>calculateLevel\<close> on its variable \<open>candidate\<close>. The candidate gets
  shorter in every round, so the loop ends.
\<close>

function calculateLevel_loop :: "'l ModuleLevels \<Rightarrow> string \<Rightarrow> 'l" where
  "calculateLevel_loop m candidate =
     (case map_of (specs m) candidate of
        Some lvl \<Rightarrow> lvl
      | None \<Rightarrow>
          (let idx = LastIndex candidate CHR ''.''
           in if idx \<le> 0 then defaultLevel m
              else calculateLevel_loop m (take (nat idx) candidate)))"
  by pat_completeness auto
termination
proof (relation "measure (\<lambda>(m, candidate). length candidate)")
  show "wf (measure (\<lambda>(m :: 'l ModuleLevels, candidate). length candidate))"
    by simp
next
  fix m :: "'l ModuleLevels" and candidate :: string and idx :: int
  assume idx: "idx = LastIndex candidate CHR ''.''" "\<not> idx \<le> 0"
  have "LastIndex s CHR ''.'' < int (length s)" for s
    by (induction s) (auto simp: Let_def)
  with idx have "nat idx < length candidate"
    by (metis nat_less_iff not_le_imp_less order_less_imp_le)
  then show "((m, take (nat idx) candidate), (m, candidate))
      \<in> measure (\<lambda>(m, candidate). length candidate)"
    by simp
qed

declare calculateLevel_loop.simps [simp del]

definition calculateLevel :: "'l ModuleLevels \<Rightarrow> string \<Rightarrow> 'l" where
  "calculateLevel m loggerName = calculateLevel_loop m (loggerName @ ''.'')"

definition cachedLevel :: "'l ModuleLevels \<Rightarrow> string \<Rightarrow> 'l option" where
  "cachedLevel m loggerName =
     (case levelCache m of None \<Rightarrow> None | Some cache \<Rightarrow> cache loggerName)"

text \<open>
  \<open>Level\<close> returns the level and the engine after the call, or the panic of the
  assignment to the cache when the cache is the nil map.
\<close>

definition Level :: "'l ModuleLevels \<Rightarrow> string \<Rightarrow> panic + ('l \<times> 'l ModuleLevels)" where
  "Level m loggerName =
     (case cachedLevel m loggerName of
        Some level \<Rightarrow> Inr (level, m)
      | None \<Rightarrow>
          (case levelCache m of
             None \<Rightarrow> Inl AssignmentToEntryInNilMap
           | Some cache \<Rightarrow>
               (let level = calculateLevel m loggerName
                in Inr (level, m\<lparr>levelCache := Some (cache(loggerName \<mapsto> level))\<rparr>))))"

subsection \<open>Spec\<close>

text \<open>
  One field \<open>k=v\<close> for every entry of \<open>specs\<close>, the level formatted by its \<open>String\<close>
  method; \<open>sort.Strings\<close> on the fields; the default level appended; \<open>strings.Join\<close>.
\<close>

definition Spec_field :: "'l scale \<Rightarrow> string \<times> 'l \<Rightarrow> string" where
  "Spec_field sc kv = fst kv @ ''='' @ LevelString sc (snd kv)"

definition Spec :: "'l scale \<Rightarrow> 'l ModuleLevels \<Rightarrow> string" where
  "Spec sc m =
     Join (sort (map (Spec_field sc) (specs m)) @ [LevelString sc (defaultLevel m)])
       CHR '':''"

subsection \<open>The public operations in sequence\<close>

text \<open>
  A call of one of the four public methods, and the engine it leaves behind. A call
  that panics leaves none: the process has ended.
\<close>

datatype operation =
    CallActivateSpec string
  | CallLevel string
  | CallDefaultLevel
  | CallSpec

fun call :: "'l scale \<Rightarrow> operation \<Rightarrow> 'l ModuleLevels \<Rightarrow> 'l ModuleLevels option" where
  "call sc (CallActivateSpec spec) m = Some (snd (ActivateSpec sc spec m))"
| "call sc (CallLevel loggerName) m =
     (case Level m loggerName of Inl p \<Rightarrow> None | Inr (level, m') \<Rightarrow> Some m')"
| "call sc CallDefaultLevel m = Some m"
| "call sc CallSpec m = Some m"

fun calls :: "'l scale \<Rightarrow> operation list \<Rightarrow> 'l ModuleLevels \<Rightarrow> 'l ModuleLevels option" where
  "calls sc [] m = Some m"
| "calls sc (c # cs) m = (case call sc c m of None \<Rightarrow> None | Some m' \<Rightarrow> calls sc cs m')"

subsection \<open>The notions of the specification\<close>


text \<open>
  The keys that the loop of \<open>calculateLevel\<close> tries from a candidate on: the
  candidate, and every non-empty part of it that a period follows.
\<close>

definition candidate_of :: "string \<Rightarrow> string \<Rightarrow> bool" where
  "candidate_of key c \<longleftrightarrow> key = c \<or> (key \<noteq> [] \<and> prefix (key @ ''.'') c)"

text \<open>
  The cache is consistent with the configuration: every entry is the level that
  \<open>calculateLevel\<close> computes.
\<close>

definition cacheConsistent :: "'l ModuleLevels \<Rightarrow> bool" where
  "cacheConsistent m \<longleftrightarrow>
     (\<forall>loggerName level. cachedLevel m loggerName = Some level \<longrightarrow>
        level = calculateLevel m loggerName)"


text \<open>
  The segments that the specification has rejected: more than one \<open>=\<close>; one \<open>=\<close> with
  nothing on its left; one \<open>=\<close> with a logger key on its left that fails the syntax
  after at most one trailing period is stripped; a level field (the whole segment
  when it has no \<open>=\<close>, the part after the \<open>=\<close> otherwise) that is not empty and not
  a valid level name.
\<close>

definition loggersOf :: "string \<Rightarrow> string" where
  "loggersOf field = takeWhile (\<lambda>c. c \<noteq> CHR ''='') field"

definition levelOf :: "string \<Rightarrow> string" where
  "levelOf field =
     (if CHR ''='' \<in> set field then tl (dropWhile (\<lambda>c. c \<noteq> CHR ''='') field) else field)"


text \<open>The segments without \<open>=\<close>, which set the default level, from left to right.\<close>

definition defaultSegments :: "string \<Rightarrow> string list" where
  "defaultSegments spec = filter (\<lambda>field. CHR ''='' \<notin> set field) (Split spec CHR '':'')"

text \<open>
  The assignments of a level to a logger key that a specification makes, from left to
  right, and the level of the rightmost assignment to a key.
\<close>

definition segmentAssignments :: "'l scale \<Rightarrow> string \<Rightarrow> (string \<times> 'l) list" where
  "segmentAssignments sc field =
     (if count_list field CHR ''='' = 1
      then map (\<lambda>key. (key, NameToLevel sc (levelOf field)))
             (Split (loggersOf field) CHR '','')
      else [])"

definition assignments :: "'l scale \<Rightarrow> string \<Rightarrow> (string \<times> 'l) list" where
  "assignments sc spec = concat (map (segmentAssignments sc) (Split spec CHR '':''))"

definition rightmost :: "string \<Rightarrow> (string \<times> 'l) list \<Rightarrow> 'l option" where
  "rightmost key as =
     (case filter (\<lambda>a. fst a = key) as of [] \<Rightarrow> None | a # as' \<Rightarrow> Some (snd (last (a # as'))))"

text \<open>
  The serialization as the specification words it: the overrides sorted by key. Go
  maps have no duplicate keys, so the order is determined.
\<close>

definition Spec_sortedByKey :: "'l scale \<Rightarrow> 'l ModuleLevels \<Rightarrow> string" where
  "Spec_sortedByKey sc m =
     Join (map (Spec_field sc) (sort_key fst (specs m)) @ [LevelString sc (defaultLevel m)])
       CHR '':''"

text \<open>
  The levels that \<open>ActivateSpec\<close> can store: \<open>InfoLevel\<close>, and what \<open>NameToLevel\<close>
  returns for the empty name and for a valid name. The conversions of the scale
  round-trip when the \<open>String\<close> of each of these levels is a valid name of that level
  without \<open>:\<close> and \<open>=\<close> in it.
\<close>

definition storable :: "'l scale \<Rightarrow> 'l \<Rightarrow> bool" where
  "storable sc level \<longleftrightarrow>
     level = InfoLevel sc \<or> level = NameToLevel sc [] \<or>
     (\<exists>name. IsValidLevel sc name \<and> level = NameToLevel sc name)"

definition namesRoundTrip :: "'l scale \<Rightarrow> bool" where
  "namesRoundTrip sc \<longleftrightarrow>
     (\<forall>level. storable sc level \<longrightarrow>
        IsValidLevel sc (LevelString sc level) \<and>
        NameToLevel sc (LevelString sc level) = level \<and>
        CHR '':'' \<notin> set (LevelString sc level) \<and>
        CHR ''='' \<notin> set (LevelString sc level))"

text \<open>
  The configurations that \<open>ActivateSpec\<close> leaves behind: the default level and the levels
  of the overrides are storable, no key is there twice, and every key passed the syntax
  check with at most one trailing period stripped and holds no \<open>:\<close>, the separator of the
  segments.
\<close>

definition entryValid :: "'l scale \<Rightarrow> string \<times> 'l \<Rightarrow> bool" where
  "entryValid sc kv \<longleftrightarrow>
     isValidLoggerName (TrimSuffix (fst kv) CHR ''.'') \<and> CHR '':'' \<notin> set (fst kv) \<and>
     storable sc (snd kv)"

definition specsValid :: "'l scale \<Rightarrow> 'l ModuleLevels \<Rightarrow> bool" where
  "specsValid sc m \<longleftrightarrow>
     storable sc (defaultLevel m) \<and> distinct (map fst (specs m)) \<and>
     (\<forall>kv \<in> set (specs m). entryValid sc kv)"

subsection \<open>A severity scale for the examples\<close>

text \<open>
  Modelled from the spec: the severity scale (\<open>IsValidLevel\<close>, \<open>NameToLevel\<close> and the
  \<open>String\<close> of a level) is not in modulelevels.go. The specification orders the
  levels as DEBUG, INFO, WARN, ERROR and a sentinel for disabled, writes their names
  in its examples as \<open>DEBUG\<close>, \<open>INFO\<close>, \<open>WARN\<close> and \<open>ERROR\<close>, maps an unrecognized or
  empty name to the info-equivalent level, and has \<open>IsValidLevel\<close> true for the
  recognized spellings only. This scale instantiates the theorems at concrete inputs.
\<close>

datatype severity = DEBUG | INFO | WARN | ERROR | DISABLED

fun severityName :: "severity \<Rightarrow> string" where
  "severityName DEBUG = ''DEBUG''"
| "severityName INFO = ''INFO''"
| "severityName WARN = ''WARN''"
| "severityName ERROR = ''ERROR''"
| "severityName DISABLED = ''DISABLED''"

definition severityScale :: "severity scale" where
  "severityScale =
     \<lparr>InfoLevel = INFO,
      IsValidLevel = (\<lambda>name. name \<in> set [''DEBUG'', ''INFO'', ''WARN'', ''ERROR'']),
      NameToLevel = (\<lambda>name.
         if name = ''DEBUG'' then DEBUG
         else if name = ''WARN'' then WARN
         else if name = ''ERROR'' then ERROR
         else INFO),
      LevelString = severityName\<rparr>"

section \<open>Properties\<close>

subsection \<open>Split and Join\<close>

lemma Split_from_piece:
  "Split_from piece s sep = (piece @ hd (Split_from [] s sep)) # tl (Split_from [] s sep)"
proof (induction s arbitrary: piece)
  case Nil
  show ?case by simp
next
  case (Cons c cs)
  show ?case
  proof (cases "c = sep")
    case True
    then show ?thesis by simp
  next
    case False
    from Cons [of "piece @ [c]"] Cons [of "[c]"] False show ?thesis by simp
  qed
qed

lemma Split_Nil: "Split [] sep = [[]]"
  by (simp add: Split_def)

lemma Split_Cons:
  "Split (c # cs) sep =
     (if c = sep then [] # Split cs sep else (c # hd (Split cs sep)) # tl (Split cs sep))"
  using Split_from_piece [of "[c]" cs sep] by (simp add: Split_def)

lemma Split_not_Nil: "Split s sep \<noteq> []"
  by (cases s) (simp_all add: Split_Nil Split_Cons)

lemma length_Split: "length (Split s sep) = Suc (count_list s sep)"
proof (induction s)
  case Nil
  show ?case by (simp add: Split_Nil)
next
  case (Cons c cs)
  with Split_not_Nil [of cs sep] show ?case
    by (cases "Split cs sep") (simp_all add: Split_Cons)
qed

lemma Split_notin: "sep \<notin> set s \<Longrightarrow> Split s sep = [s]"
  by (induction s) (auto simp: Split_Nil Split_Cons)

lemma Split_append: "sep \<notin> set x \<Longrightarrow> Split (x @ sep # s) sep = x # Split s sep"
  by (induction x) (auto simp: Split_Cons)

lemma Split_pieces: "x \<in> set (Split s sep) \<Longrightarrow> sep \<notin> set x"
proof (induction s arbitrary: x)
  case Nil
  then show ?case by (simp add: Split_Nil)
next
  case (Cons c cs)
  show ?case
  proof (cases "c = sep")
    case True
    with Cons show ?thesis by (auto simp: Split_Cons)
  next
    case False
    obtain y ys where S: "Split cs sep = y # ys"
      using Split_not_Nil [of cs sep] by (cases "Split cs sep") auto
    with Cons.prems False have "x = c # y \<or> x \<in> set ys"
      by (simp add: Split_Cons)
    with Cons.IH S False show ?thesis by auto
  qed
qed

lemma Split_Join:
  "xs \<noteq> [] \<Longrightarrow> \<forall>x \<in> set xs. sep \<notin> set x \<Longrightarrow> Split (Join xs sep) sep = xs"
proof (induction xs sep rule: Join.induct)
  case (1 sep)
  then show ?case by simp
next
  case (2 x sep)
  then show ?case by (simp add: Split_notin)
next
  case (3 x y ys sep)
  then show ?case by (simp add: Split_append)
qed

lemma Split_one:
  assumes "count_list s sep = 1"
  shows "Split s sep = [takeWhile (\<lambda>c. c \<noteq> sep) s, tl (dropWhile (\<lambda>c. c \<noteq> sep) s)]"
proof -
  let ?P = "\<lambda>c. c \<noteq> sep"
  from assms have "sep \<in> set s"
    by (metis count_list_0_iff zero_neq_one)
  then have "dropWhile ?P s \<noteq> []"
    by (simp add: dropWhile_eq_Nil_conv)
  moreover have "hd (dropWhile ?P s) = sep"
    using calculation hd_dropWhile [of ?P s] by blast
  ultimately obtain r where d: "dropWhile ?P s = sep # r"
    by (cases "dropWhile ?P s") auto
  then have s: "s = takeWhile ?P s @ sep # r"
    by (metis takeWhile_dropWhile_id)
  have t: "sep \<notin> set (takeWhile ?P s)"
    by (auto dest: set_takeWhileD)
  then have "count_list (takeWhile ?P s) sep = 0"
    by (simp add: count_list_0_iff)
  with assms s have "count_list r sep = 0"
    by (metis One_nat_def add_cancel_right_left add_right_cancel count_list.simps(2) count_list_append plus_1_eq_Suc)
  then have "sep \<notin> set r"
    by (simp add: count_list_0_iff)
  then have "Split (takeWhile ?P s @ sep # r) sep = [takeWhile ?P s, r]"
    using t by (simp add: Split_append Split_notin)
  with s d show ?thesis by simp
qed

subsection \<open>The walk of calculateLevel\<close>

lemma LastIndex_notin: "c \<notin> set s \<Longrightarrow> LastIndex s c = - 1"
  by (induction s) (auto simp: Let_def)

lemma LastIndex_append: "c \<notin> set r \<Longrightarrow> LastIndex (xs @ c # r) c = int (length xs)"
  by (induction xs) (auto simp: Let_def LastIndex_notin)

lemma LastIndex_cases:
  obtains (1) "c \<notin> set s" "LastIndex s c = - 1"
  | (2) xs r where "s = xs @ c # r" "c \<notin> set r" "LastIndex s c = int (length xs)"
  by (metis LastIndex_notin LastIndex_append split_list_last)

lemma candidate_of_step:
  assumes "c = xs @ CHR ''.'' # r" "CHR ''.'' \<notin> set r" "xs \<noteq> []"
  shows "candidate_of key c \<longleftrightarrow> key = c \<or> candidate_of key xs"
proof
  assume k: "candidate_of key c"
  show "key = c \<or> candidate_of key xs"
  proof (cases "key = c")
    case False
    with k have ne: "key \<noteq> []" and p: "prefix (key @ ''.'') (xs @ CHR ''.'' # r)"
      using assms(1) by (auto simp: candidate_of_def)
    from p have "prefix (key @ ''.'') xs \<or>
        (\<exists>us. key @ ''.'' = xs @ us \<and> prefix us (CHR ''.'' # r) \<and> us \<noteq> [])"
      unfolding prefix_append by (metis append_Nil2 prefix_order.order_refl)
    then consider "prefix (key @ ''.'') xs"
      | us where "key @ ''.'' = xs @ us" "prefix us (CHR ''.'' # r)" "us \<noteq> []"
      by blast
    then have "candidate_of key xs"
    proof cases
      case 1
      with ne show ?thesis by (simp add: candidate_of_def)
    next
      case 2
      then obtain us' where us: "us = CHR ''.'' # us'" "prefix us' r"
        by (cases us) (auto simp: prefix_Cons)
      show ?thesis
      proof (cases us')
        case Nil
        with 2 us show ?thesis by (simp add: candidate_of_def)
      next
        case (Cons a list)
        then have "last us' = CHR ''.''" using 2(1) us(1)
          by (metis append_butlast_last_id append_is_Nil_conv last_ConsR last_appendR last_snoc list.distinct(1))
        moreover have "set us' \<subseteq> set r" using us(2) by (auto simp: prefix_def)
        ultimately show ?thesis using assms(2) Cons by (metis last_in_set list.distinct(1) subsetD)
      qed
    qed
    then show ?thesis ..
  qed simp
next
  assume "key = c \<or> candidate_of key xs"
  then show "candidate_of key c"
    using assms(1,3) by (auto simp: candidate_of_def prefix_def)
qed


lemma loop_step:
  assumes "map_of (specs m) c = None" "c = xs @ CHR ''.'' # r" "CHR ''.'' \<notin> set r"
  shows "calculateLevel_loop m c = (if xs = [] then defaultLevel m else calculateLevel_loop m xs)"
  using assms by (subst calculateLevel_loop.simps) (simp add: Let_def LastIndex_append)

lemma loop_stop:
  assumes "map_of (specs m) c = None" "CHR ''.'' \<notin> set c"
  shows "calculateLevel_loop m c = defaultLevel m"
  using assms by (subst calculateLevel_loop.simps) (simp add: Let_def LastIndex_notin)

lemma loop_hit:
  assumes "map_of (specs m) c = Some level"
  shows "calculateLevel_loop m c = level"
  using assms by (subst calculateLevel_loop.simps) simp

lemma loop_default:
  "\<forall>key \<in> fst ` set (specs m). \<not> candidate_of key c \<Longrightarrow> calculateLevel_loop m c = defaultLevel m"
proof (induction m c rule: calculateLevel_loop.induct)
  case (1 m c)
  have none: "map_of (specs m) c = None"
    using 1(2) by (metis candidate_of_def map_of_eq_None_iff)
  show ?case
  proof (cases c "CHR ''.''" rule: LastIndex_cases)
    case 1
    with none show ?thesis by (simp add: loop_stop)
  next
    case (2 xs r)
    show ?thesis
    proof (cases "xs = []")
      case True
      with loop_step [OF none 2(1,2)] show ?thesis by simp
    next
      case False
      have "\<forall>key \<in> fst ` set (specs m). \<not> candidate_of key xs"
        using 1(2) candidate_of_step [OF 2(1,2) False] by blast
      with 1(1) [OF none refl] 2 False have "calculateLevel_loop m xs = defaultLevel m"
        by simp
      with loop_step [OF none 2(1,2)] False show ?thesis by simp
    qed
  qed
qed



lemma Level_consistent:
  assumes "cacheConsistent m" "levelCache m \<noteq> None"
  shows "\<exists>m'. Level m loggerName = Inr (calculateLevel m loggerName, m')"
  using assms by (auto simp: Level_def cacheConsistent_def Let_def split: option.splits)

lemma loop_cong:
  "defaultLevel m' = defaultLevel m \<Longrightarrow>
   \<forall>key. candidate_of key c \<longrightarrow> map_of (specs m') key = map_of (specs m) key \<Longrightarrow>
   calculateLevel_loop m' c = calculateLevel_loop m c"
proof (induction m c rule: calculateLevel_loop.induct)
  case (1 m c)
  have same: "map_of (specs m') c = map_of (specs m) c"
    using 1(3) by (simp add: candidate_of_def)
  show ?case
  proof (cases "map_of (specs m) c")
    case (Some lvl)
    with same have "map_of (specs m') c = Some lvl" by simp
    from loop_hit [OF this] loop_hit [OF Some] show ?thesis by simp
  next
    case None
    with same have None': "map_of (specs m') c = None" by simp
    show ?thesis
    proof (cases c "CHR ''.''" rule: LastIndex_cases)
      case 1
      from loop_stop [OF None 1(1)] loop_stop [OF None' 1(1)] \<open>defaultLevel m' = defaultLevel m\<close>
      show ?thesis by simp
    next
      case (2 xs r)
      show ?thesis
      proof (cases "xs = []")
        case True
        with loop_step [OF None 2(1,2)] loop_step [OF None' 2(1,2)] 1(2) show ?thesis by simp
      next
        case False
        have "\<forall>key. candidate_of key xs \<longrightarrow> map_of (specs m') key = map_of (specs m) key"
          using 1(3) candidate_of_step [OF 2(1,2) False] by blast
        then have "calculateLevel_loop m' xs = calculateLevel_loop m xs"
          using 1(1) [OF None refl] 1(2) 2 False by simp
        with loop_step [OF None 2(1,2)] loop_step [OF None' 2(1,2)] False show ?thesis by simp
      qed
    qed
  qed
qed

lemma calculateLevel_cong:
  "defaultLevel m' = defaultLevel m \<Longrightarrow> specs m' = specs m \<Longrightarrow>
   calculateLevel m' loggerName = calculateLevel m loggerName"
  unfolding calculateLevel_def by (rule loop_cong) simp_all

lemma matchLoggerName_append:
  "matchLoggerName b (xs @ ys) \<Longrightarrow> \<exists>b'. matchLoggerName b' ys"
  by (induction xs arbitrary: b) (auto split: if_splits)

lemma not_isLoggerNameChar_period: "\<not> isLoggerNameChar CHR ''.''"
  by (simp add: isLoggerNameChar_def)

lemma matchLoggerName_periods: "\<not> matchLoggerName b (CHR ''.'' # CHR ''.'' # r)"
  by (simp add: not_isLoggerNameChar_period)

lemma matchLoggerName_period: "\<not> matchLoggerName b [CHR ''.'']"
  by (simp add: not_isLoggerNameChar_period)

lemma valid_no_exact_candidate:
  assumes "isValidLoggerName loggerName" "loggerName \<noteq> X"
  shows "\<not> candidate_of (X @ ''.'') (loggerName @ ''.'')"
proof
  assume "candidate_of (X @ ''.'') (loggerName @ ''.'')"
  with assms(2) obtain r where r: "loggerName @ ''.'' = X @ ''..'' @ r"
    by (auto simp: candidate_of_def prefix_def)
  show False
  proof (cases r rule: rev_cases)
    case Nil
    with r have "loggerName = X @ ''.''" by simp
    with assms(1) matchLoggerName_append [of False X "''.''"] matchLoggerName_period
    show False by (auto simp: isValidLoggerName_def)
  next
    case (snoc r' a)
    with r have "loggerName = X @ CHR ''.'' # CHR ''.'' # r'" by simp
    with assms(1) matchLoggerName_append [of False X "CHR ''.'' # CHR ''.'' # r'"] matchLoggerName_periods
    show False by (auto simp: isValidLoggerName_def)
  qed
qed

lemma exact_candidate:
  "candidate_of (X @ ''.'') (loggerName @ ''.'') \<longleftrightarrow>
     loggerName = X \<or> loggerName = X @ ''.'' \<or> prefix (X @ ''..'') loggerName"
proof
  assume c: "candidate_of (X @ ''.'') (loggerName @ ''.'')"
  show "loggerName = X \<or> loggerName = X @ ''.'' \<or> prefix (X @ ''..'') loggerName"
  proof (cases "loggerName = X")
    case True
    then show ?thesis by simp
  next
    case False
    with c obtain r where r: "loggerName @ ''.'' = X @ ''..'' @ r"
      by (auto simp: candidate_of_def prefix_def)
    show ?thesis
    proof (cases r rule: rev_cases)
      case Nil
      with r show ?thesis by simp
    next
      case (snoc r' a)
      with r have "loggerName = (X @ ''..'') @ r'" by simp
      then have "prefix (X @ ''..'') loggerName"
        unfolding prefix_def by blast
      then show ?thesis by simp
    qed
  qed
next
  assume "loggerName = X \<or> loggerName = X @ ''.'' \<or> prefix (X @ ''..'') loggerName"
  then show "candidate_of (X @ ''.'') (loggerName @ ''.'')"
    by (auto simp: candidate_of_def prefix_def)
qed

text \<open>The definitions that evaluate \<open>ActivateSpec\<close> on a concrete specification.\<close>

lemmas ActivateSpec_eval =
  ActivateSpec_def Split_def severityScale_def isValidLoggerName_def TrimSuffix_def
  isLoggerNameChar_def

subsection \<open>Longest match\<close>



subsection \<open>Exact-match keys\<close>

text \<open>
  The claim C2 as it is worded fails: \<open>Level\<close> does not check its argument, and the walk
  of a name that goes on with a second period after \<open>X.\<close> reaches the candidate \<open>X.\<close>, the
  exact-match key of \<open>X\<close>. After \<open>ActivateSpec\<close> of \<open>a.=ERROR\<close> the name \<open>a..b\<close>, which is
  not \<open>a\<close> and starts with \<open>a.\<close>, resolves to the level of the key \<open>a.\<close>; without that
  key it resolves to the default level.
\<close>

theorem exact_match_descendant_counterexample:
  "''a..b'' \<noteq> ''a'' \<and> prefix (''a'' @ ''.'') ''a..b'' \<and>
   specs (snd (ActivateSpec severityScale ''a.=ERROR''
     \<lparr>defaultLevel = INFO, levelCache = None, specs = []\<rparr>)) = [(''a.'', ERROR)] \<and>
   (\<exists>m'. Level (snd (ActivateSpec severityScale ''a.=ERROR''
      \<lparr>defaultLevel = INFO, levelCache = None, specs = []\<rparr>)) ''a..b'' = Inr (ERROR, m')) \<and>
   specs (snd (ActivateSpec severityScale []
     \<lparr>defaultLevel = INFO, levelCache = None, specs = []\<rparr>)) = [] \<and>
   (\<exists>m'. Level (snd (ActivateSpec severityScale []
      \<lparr>defaultLevel = INFO, levelCache = None, specs = []\<rparr>)) ''a..b'' = Inr (INFO, m'))"
  by (simp add: ActivateSpec_eval Level_def cachedLevel_def calculateLevel_def
      calculateLevel_loop.simps)

text \<open>
  Claim C2, amended. On an engine whose cache is allocated and consistent: an
  exact-match key \<open>X.\<close> in the overrides determines the level of the logger \<open>X\<close>. The
  resolution of a logger name consults that key only when the name is \<open>X\<close>, is \<open>X.\<close> or
  starts with \<open>X..\<close>: for every other name, two configurations with the same default
  level that differ at most at the key \<open>X.\<close> resolve the name to the same level. That
  holds for every name other than \<open>X\<close> that \<open>isValidLoggerName\<close> accepts, so for every
  strict descendant of \<open>X\<close> that is a logger name. With the overrides \<open>a.b.\<close> at a level
  \<open>error\<close> and \<open>a.b\<close> at a level \<open>debug\<close>, \<open>Level\<close> returns \<open>error\<close> for \<open>a.b\<close> and \<open>debug\<close>
  for \<open>a.b.c\<close>.
\<close>

theorem exact_match_only_for_logger:
  assumes "cacheConsistent m" and "levelCache m \<noteq> None"
  shows
    "(map_of (specs m) (X @ ''.'') = Some level \<longrightarrow>
        (\<exists>m'. Level m X = Inr (level, m'))) \<and>
     (loggerName \<noteq> X \<and> loggerName \<noteq> X @ ''.'' \<and> \<not> prefix (X @ ''..'') loggerName \<and>
      defaultLevel m' = defaultLevel m \<and>
      (\<forall>key. key \<noteq> X @ ''.'' \<longrightarrow> map_of (specs m') key = map_of (specs m) key)
      \<longrightarrow> calculateLevel m' loggerName = calculateLevel m loggerName) \<and>
     (isValidLoggerName loggerName \<and> loggerName \<noteq> X \<and>
      defaultLevel m' = defaultLevel m \<and>
      (\<forall>key. key \<noteq> X @ ''.'' \<longrightarrow> map_of (specs m') key = map_of (specs m) key)
      \<longrightarrow> calculateLevel m' loggerName = calculateLevel m loggerName) \<and>
     (specs m = [(''a.b.'', error), (''a.b'', debug)] \<longrightarrow>
        (\<exists>m'. Level m ''a.b'' = Inr (error, m')) \<and>
        (\<exists>m'. Level m ''a.b.c'' = Inr (debug, m')))"
proof (intro conjI impI)
  assume "map_of (specs m) (X @ ''.'') = Some level"
  then have "calculateLevel m X = level"
    unfolding calculateLevel_def by (rule loop_hit)
  then show "\<exists>m'. Level m X = Inr (level, m')"
    using Level_consistent [OF assms, of X] by simp
next
  assume h: "loggerName \<noteq> X \<and> loggerName \<noteq> X @ ''.'' \<and> \<not> prefix (X @ ''..'') loggerName \<and>
      defaultLevel m' = defaultLevel m \<and>
      (\<forall>key. key \<noteq> X @ ''.'' \<longrightarrow> map_of (specs m') key = map_of (specs m) key)"
  then have "\<not> candidate_of (X @ ''.'') (loggerName @ ''.'')"
    unfolding exact_candidate by blast
  with h have "\<forall>key. candidate_of key (loggerName @ ''.'') \<longrightarrow>
      map_of (specs m') key = map_of (specs m) key"
    by metis
  with h show "calculateLevel m' loggerName = calculateLevel m loggerName"
    unfolding calculateLevel_def by (blast intro: loop_cong)
next
  assume h: "isValidLoggerName loggerName \<and> loggerName \<noteq> X \<and>
      defaultLevel m' = defaultLevel m \<and>
      (\<forall>key. key \<noteq> X @ ''.'' \<longrightarrow> map_of (specs m') key = map_of (specs m) key)"
  then have "\<not> candidate_of (X @ ''.'') (loggerName @ ''.'')"
    by (simp add: valid_no_exact_candidate)
  with h have "\<forall>key. candidate_of key (loggerName @ ''.'') \<longrightarrow>
      map_of (specs m') key = map_of (specs m) key"
    by metis
  with h show "calculateLevel m' loggerName = calculateLevel m loggerName"
    unfolding calculateLevel_def by (blast intro: loop_cong)
next
  assume "specs m = [(''a.b.'', error), (''a.b'', debug)]"
  then have "calculateLevel m ''a.b'' = error"
    by (simp add: calculateLevel_def calculateLevel_loop.simps)
  then show "\<exists>m'. Level m ''a.b'' = Inr (error, m')"
    using Level_consistent [OF assms, of "''a.b''"] by simp
next
  assume "specs m = [(''a.b.'', error), (''a.b'', debug)]"
  then have "calculateLevel m ''a.b.c'' = debug"
    by (simp add: calculateLevel_def calculateLevel_loop.simps)
  then show "\<exists>m'. Level m ''a.b.c'' = Inr (debug, m')"
    using Level_consistent [OF assms, of "''a.b.c''"] by simp
qed

theorem exact_match_only_for_logger_witness:
  "cacheConsistent \<lparr>defaultLevel = INFO, levelCache = Some Map.empty,
      specs = [(''a.b.'', ERROR), (''a.b'', DEBUG)]\<rparr> \<and>
   levelCache \<lparr>defaultLevel = INFO, levelCache = Some Map.empty,
      specs = [(''a.b.'', ERROR), (''a.b'', DEBUG)]\<rparr> \<noteq> None \<and>
   map_of [(''a.b.'', ERROR), (''a.b'', DEBUG)] (''a.b'' @ ''.'') = Some ERROR \<and>
   (\<exists>m'. Level \<lparr>defaultLevel = INFO, levelCache = Some Map.empty,
      specs = [(''a.b.'', ERROR), (''a.b'', DEBUG)]\<rparr> ''a.b'' = Inr (ERROR, m')) \<and>
   ''a.b/c'' \<noteq> ''a.b'' \<and> ''a.b/c'' \<noteq> ''a.b'' @ ''.'' \<and>
   \<not> prefix (''a.b'' @ ''..'') ''a.b/c'' \<and>
   calculateLevel \<lparr>defaultLevel = INFO, levelCache = Some Map.empty,
      specs = [(''a.b'', DEBUG)]\<rparr> ''a.b/c'' =
   calculateLevel \<lparr>defaultLevel = INFO, levelCache = Some Map.empty,
      specs = [(''a.b.'', ERROR), (''a.b'', DEBUG)]\<rparr> ''a.b/c'' \<and>
   isValidLoggerName ''a.b.c'' \<and> ''a.b.c'' \<noteq> ''a.b'' \<and>
   calculateLevel \<lparr>defaultLevel = INFO, levelCache = Some Map.empty,
      specs = [(''a.b'', DEBUG)]\<rparr> ''a.b.c'' =
   calculateLevel \<lparr>defaultLevel = INFO, levelCache = Some Map.empty,
      specs = [(''a.b.'', ERROR), (''a.b'', DEBUG)]\<rparr> ''a.b.c'' \<and>
   (\<exists>m'. Level \<lparr>defaultLevel = INFO, levelCache = Some Map.empty,
      specs = [(''a.b.'', ERROR), (''a.b'', DEBUG)]\<rparr> ''a.b.c'' = Inr (DEBUG, m'))"
proof -
  let ?m = "\<lparr>defaultLevel = INFO, levelCache = Some Map.empty,
      specs = [(''a.b.'', ERROR), (''a.b'', DEBUG)]\<rparr>"
  let ?m' = "\<lparr>defaultLevel = INFO, levelCache = Some Map.empty, specs = [(''a.b'', DEBUG)]\<rparr>"
  have c: "cacheConsistent ?m"
    by (simp add: cacheConsistent_def cachedLevel_def)
  have n: "levelCache ?m \<noteq> None"
    by simp
  have x: "map_of (specs ?m) (''a.b'' @ ''.'') = Some ERROR"
    by simp
  have t: "''a.b/c'' \<noteq> ''a.b'' \<and> ''a.b/c'' \<noteq> ''a.b'' @ ''.'' \<and>
      \<not> prefix (''a.b'' @ ''..'') ''a.b/c''"
    by simp
  have v: "isValidLoggerName ''a.b.c'' \<and> ''a.b.c'' \<noteq> ''a.b''"
    by (simp add: isValidLoggerName_def isLoggerNameChar_def)
  have d: "defaultLevel ?m' = defaultLevel ?m \<and>
      (\<forall>key. key \<noteq> ''a.b'' @ ''.'' \<longrightarrow> map_of (specs ?m') key = map_of (specs ?m) key)"
    by simp
  have e: "specs ?m = [(''a.b.'', ERROR), (''a.b'', DEBUG)]"
    by simp
  note T = exact_match_only_for_logger [OF c n, of "''a.b''" ERROR _ ?m' ERROR DEBUG]
  from T [of "''a.b.c''"] x have 1: "\<exists>m'. Level ?m ''a.b'' = Inr (ERROR, m')"
    by blast
  from T [of "''a.b/c''"] t d have 2: "calculateLevel ?m' ''a.b/c'' = calculateLevel ?m ''a.b/c''"
    by blast
  from T [of "''a.b.c''"] v d have 3: "calculateLevel ?m' ''a.b.c'' = calculateLevel ?m ''a.b.c''"
    by blast
  from T [of "''a.b.c''"] e have 4: "\<exists>m'. Level ?m ''a.b.c'' = Inr (DEBUG, m')"
    by blast
  from c n x t v 1 2 3 4 show ?thesis
    by simp
qed

subsection \<open>The cache\<close>

lemma ActivateSpec_cases:
  obtains (rejected) e where "ActivateSpec sc spec m = (Some e, m)"
  | (accepted) dl sp where
      "ActivateSpec_fields sc spec (Split spec CHR '':'') (InfoLevel sc, []) = Inr (dl, sp)"
      "ActivateSpec sc spec m =
         (None, m\<lparr>defaultLevel := dl, specs := sp, levelCache := Some Map.empty\<rparr>)"
  by (cases "ActivateSpec_fields sc spec (Split spec CHR '':'') (InfoLevel sc, [])")
    (auto simp: ActivateSpec_def)

lemma cacheConsistent_empty: "levelCache m = Some Map.empty \<Longrightarrow> cacheConsistent m"
  by (simp add: cacheConsistent_def cachedLevel_def)


lemma Level_cases:
  obtains (hit) level where "cachedLevel m loggerName = Some level"
      "Level m loggerName = Inr (level, m)"
  | (nil) "levelCache m = None" "Level m loggerName = Inl AssignmentToEntryInNilMap"
  | (miss) cache where "levelCache m = Some cache" "cache loggerName = None"
      "Level m loggerName =
         Inr (calculateLevel m loggerName,
              m\<lparr>levelCache := Some (cache(loggerName \<mapsto> calculateLevel m loggerName))\<rparr>)"
  by (cases "cachedLevel m loggerName"; cases "levelCache m")
    (auto simp: Level_def cachedLevel_def Let_def)

lemma Level_nil_map:
  "levelCache m = None \<Longrightarrow> Level m loggerName = Inl AssignmentToEntryInNilMap"
  by (simp add: Level_def cachedLevel_def)

lemma cacheConsistent_Level:
  assumes "cacheConsistent m" "Level m loggerName = Inr (level, m')"
  shows "cacheConsistent m'"
proof (cases rule: Level_cases [of m loggerName])
  case (hit level)
  with assms show ?thesis by simp
next
  case nil
  with assms show ?thesis by simp
next
  case (miss cache)
  with assms(2) have m': "m' = m\<lparr>levelCache := Some (cache(loggerName \<mapsto> calculateLevel m loggerName))\<rparr>"
    by auto
  have "calculateLevel m' n = calculateLevel m n" for n
    unfolding m' by (rule calculateLevel_cong) simp_all
  with assms(1) miss(1) show ?thesis
    by (auto simp: cacheConsistent_def cachedLevel_def m')
qed



lemma levelCache_ActivateSpec:
  "fst (ActivateSpec sc spec m) = None \<Longrightarrow> levelCache (snd (ActivateSpec sc spec m)) = Some Map.empty"
  by (cases rule: ActivateSpec_cases [of sc spec m]) simp_all

subsection \<open>Cache consistency\<close>



subsection \<open>Atomic rejection\<close>

text \<open>
  Claim C4. When \<open>ActivateSpec\<close> returns an error, the engine after the call is the
  engine before it (default level, overrides and cache), so \<open>Level\<close>, \<open>DefaultLevel\<close> and
  \<open>Spec\<close> return what they would have returned without the call. With the one override
  \<open>x\<close> at a level \<open>warn\<close> active, \<open>ActivateSpec\<close> of \<open>bad=segment=here\<close> returns an error
  and \<open>Level\<close> still returns \<open>warn\<close> for \<open>x\<close>.
\<close>

theorem rejected_spec_changes_nothing:
  "(fst (ActivateSpec sc spec m) \<noteq> None \<longrightarrow>
      snd (ActivateSpec sc spec m) = m \<and>
      Level (snd (ActivateSpec sc spec m)) loggerName = Level m loggerName \<and>
      DefaultLevel (snd (ActivateSpec sc spec m)) = DefaultLevel m \<and>
      Spec sc (snd (ActivateSpec sc spec m)) = Spec sc m) \<and>
   (specs m = [(''x'', warn)] \<and> cacheConsistent m \<and> levelCache m \<noteq> None \<longrightarrow>
      fst (ActivateSpec sc ''bad=segment=here'' m) =
        Some (BadSegment ''bad=segment=here'' ''bad=segment=here'') \<and>
      (\<exists>m'. Level (snd (ActivateSpec sc ''bad=segment=here'' m)) ''x'' = Inr (warn, m')))"
proof (intro conjI impI)
  assume "fst (ActivateSpec sc spec m) \<noteq> None"
  then show same: "snd (ActivateSpec sc spec m) = m"
    by (cases rule: ActivateSpec_cases [of sc spec m]) simp_all
  then show "Level (snd (ActivateSpec sc spec m)) loggerName = Level m loggerName"
    and "DefaultLevel (snd (ActivateSpec sc spec m)) = DefaultLevel m"
    and "Spec sc (snd (ActivateSpec sc spec m)) = Spec sc m"
    by simp_all
next
  show bad: "fst (ActivateSpec sc ''bad=segment=here'' m) =
      Some (BadSegment ''bad=segment=here'' ''bad=segment=here'')"
    by (simp add: ActivateSpec_def Split_def)
  assume h: "specs m = [(''x'', warn)] \<and> cacheConsistent m \<and> levelCache m \<noteq> None"
  from bad have same: "snd (ActivateSpec sc ''bad=segment=here'' m) = m"
    by (cases rule: ActivateSpec_cases [of sc "''bad=segment=here''" m]) simp_all
  from h have "calculateLevel m ''x'' = warn"
    by (simp add: calculateLevel_def calculateLevel_loop.simps)
  with h Level_consistent [of m "''x''"] same
  show "\<exists>m'. Level (snd (ActivateSpec sc ''bad=segment=here'' m)) ''x'' = Inr (warn, m')"
    by simp
qed

theorem rejected_spec_changes_nothing_witness:
  "fst (ActivateSpec severityScale ''x=WARN:bogus''
     \<lparr>defaultLevel = INFO, levelCache = Some Map.empty, specs = [(''x'', WARN)]\<rparr>) \<noteq> None \<and>
   snd (ActivateSpec severityScale ''x=WARN:bogus''
     \<lparr>defaultLevel = INFO, levelCache = Some Map.empty, specs = [(''x'', WARN)]\<rparr>) =
     \<lparr>defaultLevel = INFO, levelCache = Some Map.empty, specs = [(''x'', WARN)]\<rparr> \<and>
   cacheConsistent \<lparr>defaultLevel = INFO, levelCache = Some Map.empty, specs = [(''x'', WARN)]\<rparr> \<and>
   fst (ActivateSpec severityScale ''bad=segment=here''
     \<lparr>defaultLevel = INFO, levelCache = Some Map.empty, specs = [(''x'', WARN)]\<rparr>) =
     Some (BadSegment ''bad=segment=here'' ''bad=segment=here'') \<and>
   (\<exists>m'. Level (snd (ActivateSpec severityScale ''bad=segment=here''
     \<lparr>defaultLevel = INFO, levelCache = Some Map.empty, specs = [(''x'', WARN)]\<rparr>)) ''x'' =
     Inr (WARN, m'))"
proof -
  let ?m = "\<lparr>defaultLevel = INFO, levelCache = Some Map.empty, specs = [(''x'', WARN)]\<rparr>"
  have r: "fst (ActivateSpec severityScale ''x=WARN:bogus'' ?m) \<noteq> None"
    by (simp add: ActivateSpec_eval)
  have h: "specs ?m = [(''x'', WARN)] \<and> cacheConsistent ?m \<and> levelCache ?m \<noteq> None"
    by (simp add: cacheConsistent_def cachedLevel_def)
  note T1 = rejected_spec_changes_nothing [of severityScale "''x=WARN:bogus''" ?m "''x''" WARN]
  from T1 r have 1: "snd (ActivateSpec severityScale ''x=WARN:bogus'' ?m) = ?m"
    by blast
  from T1 h have 2: "fst (ActivateSpec severityScale ''bad=segment=here'' ?m) =
        Some (BadSegment ''bad=segment=here'' ''bad=segment=here'') \<and>
      (\<exists>m'. Level (snd (ActivateSpec severityScale ''bad=segment=here'' ?m)) ''x'' = Inr (WARN, m'))"
    by blast
  from r h 1 2 show ?thesis
    by blast
qed

subsection \<open>One round of the loops of ActivateSpec\<close>

lemma count_list_eq_0: "count_list s c = 0 \<longleftrightarrow> c \<notin> set s"
  by (simp add: count_list_0_iff)

lemma fields_default:
  assumes "CHR ''='' \<notin> set field"
  shows "ActivateSpec_fields sc spec (field # rest) (dl, sp) =
    (if field \<noteq> [] \<and> \<not> IsValidLevel sc field then Inl (BadSegment spec field)
     else ActivateSpec_fields sc spec rest (NameToLevel sc field, sp))"
  using assms by (simp add: Split_notin)

lemma fields_loggers:
  assumes "count_list field CHR ''='' = 1"
  shows "ActivateSpec_fields sc spec (field # rest) (dl, sp) =
    (if loggersOf field = [] then Inl (NoLoggerSpecified spec field)
     else if \<not> IsValidLevel sc (levelOf field) then Inl (BadSegment spec field)
     else
       (case ActivateSpec_loggers spec (NameToLevel sc (levelOf field))
               (Split (loggersOf field) CHR '','') sp of
          Inl e \<Rightarrow> Inl e
        | Inr sp' \<Rightarrow> ActivateSpec_fields sc spec rest (dl, sp')))"
proof -
  from assms have "CHR ''='' \<in> set field"
    by (metis count_list_0_iff zero_neq_one)
  then have "field \<noteq> []" and "levelOf field = tl (dropWhile (\<lambda>c. c \<noteq> CHR ''='') field)"
    by (auto simp: levelOf_def)
  with Split_one [OF assms] show ?thesis
    by (simp add: loggersOf_def)
qed

lemma fields_bad:
  assumes "1 < count_list field CHR ''=''"
  shows "ActivateSpec_fields sc spec (field # rest) (dl, sp) = Inl (BadSegment spec field)"
  using assms by (simp add: length_Split)

declare ActivateSpec_fields.simps(2) [simp del]

lemma fields_cases:
  obtains (default) "CHR ''='' \<notin> set field"
  | (loggers) "count_list field CHR ''='' = 1" "CHR ''='' \<in> set field"
  | (bad) "1 < count_list field CHR ''=''"
  by (metis count_list_0_iff less_one linorder_neqE_nat zero_neq_one)

lemma loggers_Inr:
  "ActivateSpec_loggers spec level ls sp = Inr sp' \<longleftrightarrow>
     (\<forall>l \<in> set ls. isValidLoggerName (TrimSuffix l CHR ''.'')) \<and>
     sp' = foldl (\<lambda>sp l. AList.update l level sp) sp ls"
  by (induction ls arbitrary: sp) auto


lemma map_of_foldl_update:
  "map_of (foldl (\<lambda>sp l. AList.update l level sp) sp ls) =
   map_of sp ++ map_of (rev (map (\<lambda>key. (key, level)) ls))"
  by (induction ls arbitrary: sp) (simp_all add: update_conv' map_add_upd_left)

lemma distinct_foldl_update:
  "distinct (map fst sp) \<Longrightarrow>
   distinct (map fst (foldl (\<lambda>sp l. AList.update l level sp) sp ls))"
  by (induction ls arbitrary: sp) (simp_all add: distinct_update)


subsection \<open>The result of the loop over the fields\<close>

lemma fields_Inr:
  assumes "ActivateSpec_fields sc spec fs (dl, sp) = Inr (dl', sp')"
  shows "dl' = (case filter (\<lambda>field. CHR ''='' \<notin> set field) fs of
                  [] \<Rightarrow> dl | d # ds \<Rightarrow> NameToLevel sc (last (d # ds))) \<and>
         map_of sp' = map_of sp ++ map_of (rev (concat (map (segmentAssignments sc) fs)))"
  using assms
proof (induction fs arbitrary: dl sp)
  case Nil
  then show ?case by simp
next
  case (Cons field rest)
  show ?case
  proof (cases rule: fields_cases [of field])
    case default
    with Cons.prems have r: "ActivateSpec_fields sc spec rest (NameToLevel sc field, sp) = Inr (dl', sp')"
      by (simp add: fields_default split: if_splits)
    have a: "segmentAssignments sc field = []"
      using default by (simp add: segmentAssignments_def count_list_eq_0)
    from Cons.IH [OF r] default a show ?thesis
      by (simp split: list.splits)
  next
    case loggers
    let ?level = "NameToLevel sc (levelOf field)"
    let ?ls = "Split (loggersOf field) CHR '',''"
    from Cons.prems loggers(1) obtain sp1 where
      l: "ActivateSpec_loggers spec ?level ?ls sp = Inr sp1" and
      r: "ActivateSpec_fields sc spec rest (dl, sp1) = Inr (dl', sp')"
      by (auto simp: fields_loggers split: if_splits sum.splits)
    from l have sp1: "map_of sp1 = map_of sp ++ map_of (rev (segmentAssignments sc field))"
      using loggers(1) by (simp add: loggers_Inr map_of_foldl_update segmentAssignments_def)
    from Cons.IH [OF r] sp1 loggers(2) show ?thesis
      by simp
  next
    case bad
    with Cons.prems show ?thesis by (simp add: fields_bad)
  qed
qed

lemma fields_distinct:
  assumes "ActivateSpec_fields sc spec fs (dl, sp) = Inr (dl', sp')" "distinct (map fst sp)"
  shows "distinct (map fst sp')"
  using assms
proof (induction fs arbitrary: dl sp)
  case Nil
  then show ?case by simp
next
  case (Cons field rest)
  show ?case
  proof (cases rule: fields_cases [of field])
    case default
    with Cons.prems have "ActivateSpec_fields sc spec rest (NameToLevel sc field, sp) = Inr (dl', sp')"
      by (simp add: fields_default split: if_splits)
    from Cons.IH [OF this Cons.prems(2)] show ?thesis .
  next
    case loggers
    let ?level = "NameToLevel sc (levelOf field)"
    let ?ls = "Split (loggersOf field) CHR '',''"
    from Cons.prems loggers(1) obtain sp1 where
      l: "ActivateSpec_loggers spec ?level ?ls sp = Inr sp1" and
      r: "ActivateSpec_fields sc spec rest (dl, sp1) = Inr (dl', sp')"
      by (auto simp: fields_loggers split: if_splits sum.splits)
    from l Cons.prems(2) have "distinct (map fst sp1)"
      by (simp add: loggers_Inr distinct_foldl_update)
    from Cons.IH [OF r this] show ?thesis .
  next
    case bad
    with Cons.prems show ?thesis by (simp add: fields_bad)
  qed
qed

subsection \<open>The automaton and the syntax of logger names\<close>



subsection \<open>Rejected segments\<close>




lemmas fields_eval = ActivateSpec_eval ActivateSpec_fields.simps


lemma ActivateSpec_None:
  "fst (ActivateSpec sc spec m) = None \<longleftrightarrow>
     (\<exists>dl sp. ActivateSpec_fields sc spec (Split spec CHR '':'') (InfoLevel sc, []) = Inr (dl, sp) \<and>
        snd (ActivateSpec sc spec m) =
          m\<lparr>defaultLevel := dl, specs := sp, levelCache := Some Map.empty\<rparr>)"
  by (auto simp: ActivateSpec_def split: sum.splits)


subsection \<open>Error conditions\<close>






subsection \<open>Default-level segments\<close>

text \<open>
  Claim C7. After a successful \<open>ActivateSpec\<close>, \<open>DefaultLevel\<close> returns the level that
  \<open>NameToLevel\<close> gives for the last segment without \<open>=\<close>, or \<open>InfoLevel\<close> when every
  segment has an \<open>=\<close>. When \<open>DEBUG\<close> is a valid level name, \<open>ActivateSpec\<close> of \<open>DEBUG\<close>
  succeeds and leaves that level as the default, no override and an empty cache;
  \<open>DefaultLevel\<close> then returns it, and so does \<open>Level\<close> for every logger name.
\<close>

theorem default_level_segments:
  "(fst (ActivateSpec sc spec m) = None \<longrightarrow>
      DefaultLevel (snd (ActivateSpec sc spec m)) =
        (if defaultSegments spec = [] then InfoLevel sc
         else NameToLevel sc (last (defaultSegments spec)))) \<and>
   (IsValidLevel sc ''DEBUG'' \<longrightarrow>
      ActivateSpec sc ''DEBUG'' m =
        (None, m\<lparr>defaultLevel := NameToLevel sc ''DEBUG'', specs := [],
                  levelCache := Some Map.empty\<rparr>) \<and>
      DefaultLevel (snd (ActivateSpec sc ''DEBUG'' m)) = NameToLevel sc ''DEBUG'' \<and>
      (\<exists>m'. Level (snd (ActivateSpec sc ''DEBUG'' m)) loggerName =
         Inr (NameToLevel sc ''DEBUG'', m')))"
proof (intro conjI impI)
  assume "fst (ActivateSpec sc spec m) = None"
  then obtain dl sp where
    f: "ActivateSpec_fields sc spec (Split spec CHR '':'') (InfoLevel sc, []) = Inr (dl, sp)" and
    m': "snd (ActivateSpec sc spec m) =
          m\<lparr>defaultLevel := dl, specs := sp, levelCache := Some Map.empty\<rparr>"
    unfolding ActivateSpec_None by blast
  from fields_Inr [OF f] m'
  show "DefaultLevel (snd (ActivateSpec sc spec m)) =
        (if defaultSegments spec = [] then InfoLevel sc
         else NameToLevel sc (last (defaultSegments spec)))"
    by (simp add: DefaultLevel_def defaultSegments_def split: list.splits)
next
  assume v: "IsValidLevel sc ''DEBUG''"
  then show a: "ActivateSpec sc ''DEBUG'' m =
        (None, m\<lparr>defaultLevel := NameToLevel sc ''DEBUG'', specs := [],
                  levelCache := Some Map.empty\<rparr>)"
    by (simp add: ActivateSpec_def Split_def ActivateSpec_fields.simps)
  then show "DefaultLevel (snd (ActivateSpec sc ''DEBUG'' m)) = NameToLevel sc ''DEBUG''"
    by (simp add: DefaultLevel_def)
  let ?m = "m\<lparr>defaultLevel := NameToLevel sc ''DEBUG'', specs := [],
                  levelCache := Some Map.empty\<rparr>"
  have "calculateLevel ?m loggerName = NameToLevel sc ''DEBUG''"
    unfolding calculateLevel_def using loop_default [of ?m "loggerName @ ''.''"] by simp
  moreover have "cacheConsistent ?m" and "levelCache ?m \<noteq> None"
    by (simp_all add: cacheConsistent_empty)
  ultimately show "\<exists>m'. Level (snd (ActivateSpec sc ''DEBUG'' m)) loggerName =
         Inr (NameToLevel sc ''DEBUG'', m')"
    using Level_consistent [of ?m loggerName] a by simp
qed

theorem default_level_segments_witness:
  "fst (ActivateSpec severityScale ''WARN:a=INFO:DEBUG''
     \<lparr>defaultLevel = INFO, levelCache = None, specs = []\<rparr>) = None \<and>
   defaultSegments ''WARN:a=INFO:DEBUG'' = [''WARN'', ''DEBUG''] \<and>
   DefaultLevel (snd (ActivateSpec severityScale ''WARN:a=INFO:DEBUG''
     \<lparr>defaultLevel = INFO, levelCache = None, specs = []\<rparr>)) = DEBUG \<and>
   IsValidLevel severityScale ''DEBUG'' \<and>
   ActivateSpec severityScale ''DEBUG'' \<lparr>defaultLevel = INFO, levelCache = None, specs = []\<rparr> =
     (None, \<lparr>defaultLevel = DEBUG, levelCache = Some Map.empty, specs = []\<rparr>) \<and>
   (\<exists>m'. Level (snd (ActivateSpec severityScale ''DEBUG''
     \<lparr>defaultLevel = INFO, levelCache = None, specs = []\<rparr>)) ''a.b'' = Inr (DEBUG, m'))"
proof -
  let ?m = "\<lparr>defaultLevel = INFO, levelCache = None, specs = []\<rparr> :: severity ModuleLevels"
  have s: "fst (ActivateSpec severityScale ''WARN:a=INFO:DEBUG'' ?m) = None"
    by (simp add: fields_eval)
  have d: "defaultSegments ''WARN:a=INFO:DEBUG'' = [''WARN'', ''DEBUG'']"
    by (simp add: defaultSegments_def Split_def)
  have v: "IsValidLevel severityScale ''DEBUG''"
    by (simp add: severityScale_def)
  have n: "NameToLevel severityScale ''DEBUG'' = DEBUG"
    by (simp add: severityScale_def)
  note T1 = default_level_segments [of severityScale "''WARN:a=INFO:DEBUG''" ?m "''a.b''"]
  from T1 s have "DefaultLevel (snd (ActivateSpec severityScale ''WARN:a=INFO:DEBUG'' ?m)) =
        (if defaultSegments ''WARN:a=INFO:DEBUG'' = [] then InfoLevel severityScale
         else NameToLevel severityScale (last (defaultSegments ''WARN:a=INFO:DEBUG'')))"
    by blast
  then have 1:
    "DefaultLevel (snd (ActivateSpec severityScale ''WARN:a=INFO:DEBUG'' ?m)) = DEBUG"
    unfolding d using n by simp
  from T1 v have "ActivateSpec severityScale ''DEBUG'' ?m =
     (None, ?m\<lparr>defaultLevel := NameToLevel severityScale ''DEBUG'', specs := [],
                  levelCache := Some Map.empty\<rparr>) \<and>
     (\<exists>m'. Level (snd (ActivateSpec severityScale ''DEBUG'' ?m)) ''a.b'' =
        Inr (NameToLevel severityScale ''DEBUG'', m'))"
    by blast
  then have 2: "ActivateSpec severityScale ''DEBUG'' ?m =
     (None, \<lparr>defaultLevel = DEBUG, levelCache = Some Map.empty, specs = []\<rparr>)"
    and 3: "\<exists>m'. Level (snd (ActivateSpec severityScale ''DEBUG'' ?m)) ''a.b'' = Inr (DEBUG, m')"
    unfolding n by (simp, blast)
  from s d v 1 2 3 show ?thesis
    by blast
qed

subsection \<open>Duplicate keys\<close>

text \<open>
  Claim C10. After a successful \<open>ActivateSpec\<close>, the overrides map every key to the level
  of the rightmost assignment that the specification makes to it, and hold no other
  key. When \<open>ERROR\<close> and \<open>DEBUG\<close> are valid level names, \<open>ActivateSpec\<close> of
  \<open>a=ERROR:a=DEBUG\<close> succeeds and \<open>Level\<close> then returns the level of \<open>DEBUG\<close> for \<open>a\<close>.
\<close>

lemma rightmost_map_of: "rightmost key as = map_of (rev as) key"
  by (induction as rule: rev_induct) (auto simp: rightmost_def split: list.splits)

theorem rightmost_assignment_wins:
  "(fst (ActivateSpec sc spec m) = None \<longrightarrow>
      map_of (specs (snd (ActivateSpec sc spec m))) key = rightmost key (assignments sc spec)) \<and>
   (IsValidLevel sc ''ERROR'' \<and> IsValidLevel sc ''DEBUG'' \<longrightarrow>
      fst (ActivateSpec sc ''a=ERROR:a=DEBUG'' m) = None \<and>
      (\<exists>m'. Level (snd (ActivateSpec sc ''a=ERROR:a=DEBUG'' m)) ''a'' =
         Inr (NameToLevel sc ''DEBUG'', m')))"
proof (intro conjI impI)
  assume "fst (ActivateSpec sc spec m) = None"
  then obtain dl sp where
    f: "ActivateSpec_fields sc spec (Split spec CHR '':'') (InfoLevel sc, []) = Inr (dl, sp)" and
    m': "snd (ActivateSpec sc spec m) =
          m\<lparr>defaultLevel := dl, specs := sp, levelCache := Some Map.empty\<rparr>"
    unfolding ActivateSpec_None by blast
  from fields_Inr [OF f] m'
  show "map_of (specs (snd (ActivateSpec sc spec m))) key = rightmost key (assignments sc spec)"
    by (simp add: rightmost_map_of assignments_def)
next
  assume v: "IsValidLevel sc ''ERROR'' \<and> IsValidLevel sc ''DEBUG''"
  let ?m = "m\<lparr>defaultLevel := InfoLevel sc, specs := [(''a'', NameToLevel sc ''DEBUG'')],
                  levelCache := Some Map.empty\<rparr>"
  from v have a: "ActivateSpec sc ''a=ERROR:a=DEBUG'' m = (None, ?m)"
    by (simp add: ActivateSpec_def Split_def ActivateSpec_fields.simps isValidLoggerName_def
        TrimSuffix_def isLoggerNameChar_def)
  then show "fst (ActivateSpec sc ''a=ERROR:a=DEBUG'' m) = None"
    by simp
  have "calculateLevel ?m ''a'' = NameToLevel sc ''DEBUG''"
    by (simp add: calculateLevel_def calculateLevel_loop.simps)
  moreover have "cacheConsistent ?m" and "levelCache ?m \<noteq> None"
    by (simp_all add: cacheConsistent_empty)
  ultimately show "\<exists>m'. Level (snd (ActivateSpec sc ''a=ERROR:a=DEBUG'' m)) ''a'' =
         Inr (NameToLevel sc ''DEBUG'', m')"
    using Level_consistent [of ?m "''a''"] a by simp
qed

theorem rightmost_assignment_wins_witness:
  "fst (ActivateSpec severityScale ''a,b=WARN:b,b.=ERROR:INFO:b=DEBUG''
     \<lparr>defaultLevel = INFO, levelCache = None, specs = []\<rparr>) = None \<and>
   assignments severityScale ''a,b=WARN:b,b.=ERROR:INFO:b=DEBUG'' =
     [(''a'', WARN), (''b'', WARN), (''b'', ERROR), (''b.'', ERROR), (''b'', DEBUG)] \<and>
   map_of (specs (snd (ActivateSpec severityScale ''a,b=WARN:b,b.=ERROR:INFO:b=DEBUG''
     \<lparr>defaultLevel = INFO, levelCache = None, specs = []\<rparr>))) ''b'' = Some DEBUG \<and>
   IsValidLevel severityScale ''ERROR'' \<and> IsValidLevel severityScale ''DEBUG'' \<and>
   (\<exists>m'. Level (snd (ActivateSpec severityScale ''a=ERROR:a=DEBUG''
     \<lparr>defaultLevel = INFO, levelCache = None, specs = []\<rparr>)) ''a'' = Inr (DEBUG, m'))"
proof -
  let ?m = "\<lparr>defaultLevel = INFO, levelCache = None, specs = []\<rparr> :: severity ModuleLevels"
  let ?spec = "''a,b=WARN:b,b.=ERROR:INFO:b=DEBUG''"
  have s: "fst (ActivateSpec severityScale ?spec ?m) = None"
    by (simp add: fields_eval)
  have a: "assignments severityScale ?spec =
     [(''a'', WARN), (''b'', WARN), (''b'', ERROR), (''b.'', ERROR), (''b'', DEBUG)]"
    by (simp add: assignments_def segmentAssignments_def Split_def loggersOf_def levelOf_def
        severityScale_def)
  have v: "IsValidLevel severityScale ''ERROR'' \<and> IsValidLevel severityScale ''DEBUG''"
    by (simp add: severityScale_def)
  have n: "NameToLevel severityScale ''DEBUG'' = DEBUG"
    by (simp add: severityScale_def)
  note T1 = rightmost_assignment_wins [of severityScale ?spec ?m "''b''"]
  from T1 s have "map_of (specs (snd (ActivateSpec severityScale ?spec ?m))) ''b'' =
      rightmost ''b'' (assignments severityScale ?spec)"
    by blast
  then have 1: "map_of (specs (snd (ActivateSpec severityScale ?spec ?m))) ''b'' = Some DEBUG"
    unfolding a by (simp add: rightmost_def)
  from T1 v have
    "\<exists>m'. Level (snd (ActivateSpec severityScale ''a=ERROR:a=DEBUG'' ?m)) ''a'' =
       Inr (NameToLevel severityScale ''DEBUG'', m')"
    by blast
  then have 2:
    "\<exists>m'. Level (snd (ActivateSpec severityScale ''a=ERROR:a=DEBUG'' ?m)) ''a'' = Inr (DEBUG, m')"
    unfolding n .
  from s a v 1 2 show ?thesis
    by blast
qed

subsection \<open>The empty level name\<close>

text \<open>
  Claim C9 says that a segment \<open>loggers=\<close> with an empty level is accepted. In the second
  case of the switch the test \<open>field != ""\<close> is on the whole segment, which holds an \<open>=\<close>
  and is never empty, so the level after the \<open>=\<close> is always checked with \<open>IsValidLevel\<close>:
  \<open>ActivateSpec\<close> of \<open>a=\<close> succeeds only on a scale whose \<open>IsValidLevel\<close> accepts the empty
  name, and returns the error \<open>bad segment\<close> on the scale of the examples. The first case
  of the switch has the same test and does accept the empty level: \<open>ActivateSpec\<close> of the
  empty specification succeeds with \<open>NameToLevel\<close> of the empty name as the default.
\<close>

theorem empty_level_after_equals:
  "fst (ActivateSpec sc ''a='' m) =
     (if IsValidLevel sc [] then None else Some (BadSegment ''a='' ''a='')) \<and>
   fst (ActivateSpec severityScale ''a='' m') = Some (BadSegment ''a='' ''a='') \<and>
   ActivateSpec sc [] m =
     (None, m\<lparr>defaultLevel := NameToLevel sc [], specs := [], levelCache := Some Map.empty\<rparr>)"
  by (simp add: ActivateSpec_def Split_def ActivateSpec_fields.simps isValidLoggerName_def
      TrimSuffix_def isLoggerNameChar_def severityScale_def)

subsection \<open>Canonical serialization\<close>

text \<open>
  The claim C8 as it is worded fails: \<open>sort.Strings\<close> orders the fields \<open>key=level\<close>, not
  the keys. After \<open>ActivateSpec\<close> of \<open>a=INFO:a.b=DEBUG\<close> the field of the key \<open>a.b\<close> comes
  before the field of the key \<open>a\<close>, because the period is a smaller byte than \<open>=\<close>; sorted
  by key, \<open>a\<close> would come first.
\<close>

theorem Spec_sorted_by_key_counterexample:
  "Spec severityScale
     (snd (ActivateSpec severityScale ''a=INFO:a.b=DEBUG''
        \<lparr>defaultLevel = INFO, levelCache = None, specs = []\<rparr>)) = ''a.b=DEBUG:a=INFO:INFO'' \<and>
   Spec_sortedByKey severityScale
     (snd (ActivateSpec severityScale ''a=INFO:a.b=DEBUG''
        \<lparr>defaultLevel = INFO, levelCache = None, specs = []\<rparr>)) = ''a=INFO:a.b=DEBUG:INFO'' \<and>
   Spec severityScale
     (snd (ActivateSpec severityScale ''a=INFO:a.b=DEBUG''
        \<lparr>defaultLevel = INFO, levelCache = None, specs = []\<rparr>)) \<noteq>
   Spec_sortedByKey severityScale
     (snd (ActivateSpec severityScale ''a=INFO:a.b=DEBUG''
        \<lparr>defaultLevel = INFO, levelCache = None, specs = []\<rparr>))"
  by (simp add: fields_eval Spec_def Spec_sortedByKey_def Spec_field_def)

lemma alist_mset_eq:
  assumes "distinct (map fst xs)" "distinct (map fst ys)" "map_of ys = map_of xs"
  shows "mset ys = mset xs"
proof -
  from assms have "set ys = set xs"
    by (simp add: map_of_inject_set)
  moreover from assms have "distinct xs" "distinct ys"
    by (auto simp: distinct_map)
  ultimately show ?thesis
    by (simp add: set_eq_iff_mset_eq_distinct)
qed

lemma sort_map_mset_eq:
  fixes f :: "'a \<Rightarrow> 'b :: linorder"
  assumes "mset ys = mset xs"
  shows "sort (map f ys) = sort (map f xs)"
proof (rule properties_for_sort)
  from assms show "mset (sort (map f xs)) = mset (map f ys)"
    by simp
  show "sorted (sort (map f xs))"
    by simp
qed

text \<open>
  Claim C8, amended. \<open>Spec\<close> returns one field \<open>key=level\<close> for every override, the fields
  sorted lexicographically as whole strings, joined with \<open>:\<close> and followed by the name of
  the default level as the last field. The result depends on the configuration only:
  two engines with the same default level whose overrides are the same map, in whatever
  order a Go map without duplicate keys holds them, render the same string.
\<close>

theorem Spec_sorted_fields:
  "(\<exists>fs. mset fs = image_mset (\<lambda>(key, level). key @ ''='' @ LevelString sc level) (mset (specs m)) \<and>
         sorted fs \<and>
         Spec sc m = Join (fs @ [LevelString sc (defaultLevel m)]) CHR '':'') \<and>
   (distinct (map fst (specs m)) \<and> distinct (map fst (specs m')) \<and>
    map_of (specs m') = map_of (specs m) \<and> defaultLevel m' = defaultLevel m \<longrightarrow>
      Spec sc m' = Spec sc m)"
proof (intro conjI impI)
  let ?fs = "sort (map (Spec_field sc) (specs m))"
  have f: "Spec_field sc = (\<lambda>(key, level). key @ ''='' @ LevelString sc level)"
    by (auto simp: Spec_field_def)
  have "mset ?fs = image_mset (\<lambda>(key, level). key @ ''='' @ LevelString sc level) (mset (specs m))"
    by (simp add: f)
  moreover have "sorted ?fs"
    by simp
  moreover have "Spec sc m = Join (?fs @ [LevelString sc (defaultLevel m)]) CHR '':''"
    by (simp add: Spec_def)
  ultimately show "\<exists>fs. mset fs =
      image_mset (\<lambda>(key, level). key @ ''='' @ LevelString sc level) (mset (specs m)) \<and>
      sorted fs \<and> Spec sc m = Join (fs @ [LevelString sc (defaultLevel m)]) CHR '':''"
    by blast
next
  assume h: "distinct (map fst (specs m)) \<and> distinct (map fst (specs m')) \<and>
    map_of (specs m') = map_of (specs m) \<and> defaultLevel m' = defaultLevel m"
  then have "mset (specs m') = mset (specs m)"
    by (simp add: alist_mset_eq)
  then have "sort (map (Spec_field sc) (specs m')) = sort (map (Spec_field sc) (specs m))"
    by (rule sort_map_mset_eq)
  with h show "Spec sc m' = Spec sc m"
    by (simp add: Spec_def)
qed

theorem Spec_sorted_fields_witness:
  "distinct (map fst [(''b'', WARN), (''a.b'', INFO), (''a'', INFO)]) \<and>
   distinct (map fst [(''a'', INFO), (''a.b'', INFO), (''b'', WARN)]) \<and>
   map_of [(''a'', INFO), (''a.b'', INFO), (''b'', WARN)] =
     map_of [(''b'', WARN), (''a.b'', INFO), (''a'', INFO)] \<and>
   Spec severityScale \<lparr>defaultLevel = INFO, levelCache = None,
     specs = [(''a'', INFO), (''a.b'', INFO), (''b'', WARN)]\<rparr> =
   Spec severityScale \<lparr>defaultLevel = INFO, levelCache = None,
     specs = [(''b'', WARN), (''a.b'', INFO), (''a'', INFO)]\<rparr> \<and>
   Spec severityScale \<lparr>defaultLevel = INFO, levelCache = None,
     specs = [(''b'', WARN), (''a.b'', INFO), (''a'', INFO)]\<rparr> = ''a.b=INFO:a=INFO:b=WARN:INFO''"
proof -
  let ?m = "\<lparr>defaultLevel = INFO, levelCache = None,
     specs = [(''b'', WARN), (''a.b'', INFO), (''a'', INFO)]\<rparr>"
  let ?m' = "\<lparr>defaultLevel = INFO, levelCache = None,
     specs = [(''a'', INFO), (''a.b'', INFO), (''b'', WARN)]\<rparr>"
  have d: "distinct (map fst (specs ?m)) \<and> distinct (map fst (specs ?m'))"
    by simp
  have e: "map_of (specs ?m') = map_of (specs ?m)"
    by (rule ext) simp
  have v: "Spec severityScale ?m = ''a.b=INFO:a=INFO:b=WARN:INFO''"
    by (simp add: Spec_def Spec_field_def severityScale_def)
  from Spec_sorted_fields [of severityScale ?m ?m'] d e
  have "Spec severityScale ?m' = Spec severityScale ?m"
    by simp
  with d e v show ?thesis
    by simp
qed

subsection \<open>The configurations that ActivateSpec stores\<close>

lemma Split_subset: "x \<in> set (Split s sep) \<Longrightarrow> set x \<subseteq> set s"
proof (induction s arbitrary: x)
  case Nil
  then show ?case by (simp add: Split_Nil)
next
  case (Cons c cs)
  obtain y ys where S: "Split cs sep = y # ys"
    using Split_not_Nil [of cs sep] by (cases "Split cs sep") auto
  with Cons.prems consider "x = []" | "x = c # y" | "x \<in> set (Split cs sep)"
    by (auto simp: Split_Cons split: if_splits)
  then show ?case
  proof cases
    case 1
    then show ?thesis by simp
  next
    case 2
    from S have "y \<in> set (Split cs sep)" by simp
    from Cons.IH [OF this] 2 show ?thesis by auto
  next
    case 3
    from Cons.IH [OF this] show ?thesis by auto
  qed
qed

lemma set_update_subset: "set (AList.update k v al) \<subseteq> insert (k, v) (set al)"
  by (induction al) auto

lemma set_foldl_update:
  "set (foldl (\<lambda>sp l. AList.update l level sp) sp ls) \<subseteq> set sp \<union> (\<lambda>l. (l, level)) ` set ls"
proof (induction ls arbitrary: sp)
  case Nil
  show ?case by simp
next
  case (Cons l ls)
  from Cons [of "AList.update l level sp"] set_update_subset [of l level sp]
  show ?case by auto
qed

lemma fields_valid:
  assumes "ActivateSpec_fields sc spec fs (dl, sp) = Inr (dl', sp')"
    and "\<forall>field \<in> set fs. CHR '':'' \<notin> set field"
    and "storable sc dl" and "\<forall>kv \<in> set sp. entryValid sc kv"
  shows "storable sc dl' \<and> (\<forall>kv \<in> set sp'. entryValid sc kv)"
  using assms
proof (induction fs arbitrary: dl sp)
  case Nil
  then show ?case by simp
next
  case (Cons field rest)
  from Cons.prems(2) have rest: "\<forall>field \<in> set rest. CHR '':'' \<notin> set field"
    and colon: "CHR '':'' \<notin> set field"
    by simp_all
  show ?case
  proof (cases rule: fields_cases [of field])
    case default
    with Cons.prems(1) have
      r: "ActivateSpec_fields sc spec rest (NameToLevel sc field, sp) = Inr (dl', sp')" and
      v: "field = [] \<or> IsValidLevel sc field"
      by (auto simp: fields_default split: if_splits)
    from v have "storable sc (NameToLevel sc field)"
      by (auto simp: storable_def)
    from Cons.IH [OF r rest this Cons.prems(4)] show ?thesis .
  next
    case loggers
    let ?level = "NameToLevel sc (levelOf field)"
    let ?ls = "Split (loggersOf field) CHR '',''"
    from Cons.prems(1) loggers(1) obtain sp1 where
      l: "ActivateSpec_loggers spec ?level ?ls sp = Inr sp1" and
      r: "ActivateSpec_fields sc spec rest (dl, sp1) = Inr (dl', sp')" and
      v: "IsValidLevel sc (levelOf field)"
      by (auto simp: fields_loggers split: if_splits sum.splits)
    from l have valid: "\<forall>l \<in> set ?ls. isValidLoggerName (TrimSuffix l CHR ''.'')"
      and sp1: "sp1 = foldl (\<lambda>sp l. AList.update l ?level sp) sp ?ls"
      by (simp_all add: loggers_Inr)
    have "entryValid sc kv" if "kv \<in> set sp1" for kv
    proof -
      from that sp1 set_foldl_update [of ?level sp ?ls]
      consider "kv \<in> set sp" | l where "l \<in> set ?ls" "kv = (l, ?level)"
        by auto
      then show ?thesis
      proof cases
        case 1
        with Cons.prems(4) show ?thesis by simp
      next
        case 2
        from 2(1) have "set l \<subseteq> set (loggersOf field)"
          by (rule Split_subset)
        also have "\<dots> \<subseteq> set field"
          unfolding loggersOf_def by (auto dest: set_takeWhileD)
        finally have "CHR '':'' \<notin> set l"
          using colon by auto
        with 2 valid v show ?thesis
          by (auto simp: entryValid_def storable_def)
      qed
    qed
    then have "\<forall>kv \<in> set sp1. entryValid sc kv"
      by simp
    from Cons.IH [OF r rest Cons.prems(3) this] show ?thesis .
  next
    case bad
    with Cons.prems(1) show ?thesis by (simp add: fields_bad)
  qed
qed

lemma specsValid_ActivateSpec:
  assumes "fst (ActivateSpec sc spec m) = None"
  shows "specsValid sc (snd (ActivateSpec sc spec m))"
proof -
  from assms obtain dl sp where
    f: "ActivateSpec_fields sc spec (Split spec CHR '':'') (InfoLevel sc, []) = Inr (dl, sp)" and
    m': "snd (ActivateSpec sc spec m) =
          m\<lparr>defaultLevel := dl, specs := sp, levelCache := Some Map.empty\<rparr>"
    unfolding ActivateSpec_None by blast
  have "\<forall>field \<in> set (Split spec CHR '':''). CHR '':'' \<notin> set field"
    by (simp add: Split_pieces)
  moreover have "storable sc (InfoLevel sc)"
    by (simp add: storable_def)
  ultimately have "storable sc dl \<and> (\<forall>kv \<in> set sp. entryValid sc kv)"
    using fields_valid [OF f] by simp
  moreover from fields_distinct [OF f] have "distinct (map fst sp)"
    by simp
  ultimately show ?thesis
    unfolding m' by (simp add: specsValid_def)
qed

subsection \<open>Parsing the fields that Spec renders\<close>

lemma matchLoggerName_chars:
  "matchLoggerName b s \<Longrightarrow> \<forall>c \<in> set s. isLoggerNameChar c \<or> c = CHR ''.''"
  by (induction s arbitrary: b) (auto split: if_splits)

lemma key_chars:
  assumes "isValidLoggerName (TrimSuffix k CHR ''.'')"
  shows "k \<noteq> []" and "CHR ''='' \<notin> set k" and "CHR '','' \<notin> set k"
proof -
  from assms show "k \<noteq> []"
    by (auto simp: isValidLoggerName_def TrimSuffix_def)
  then have "set k \<subseteq> set (TrimSuffix k CHR ''.'') \<union> {CHR ''.''}"
    by (cases k rule: rev_cases) (auto simp: TrimSuffix_def)
  with matchLoggerName_chars [OF assms [unfolded isValidLoggerName_def]]
  have c: "\<forall>c \<in> set k. isLoggerNameChar c \<or> c = CHR ''.''"
    by auto
  have "\<not> isLoggerNameChar CHR ''=''" and "\<not> isLoggerNameChar CHR '',''"
    by (simp_all add: isLoggerNameChar_def)
  with c show "CHR ''='' \<notin> set k" and "CHR '','' \<notin> set k"
    by auto
qed

lemma field_parts:
  assumes "CHR ''='' \<notin> set k" "CHR ''='' \<notin> set name"
  shows "count_list (k @ ''='' @ name) CHR ''='' = 1"
    and "loggersOf (k @ ''='' @ name) = k"
    and "levelOf (k @ ''='' @ name) = name"
proof -
  from assms show "count_list (k @ ''='' @ name) CHR ''='' = 1"
    by (simp add: count_list_append count_list_0_iff)
  from assms(1) have t: "takeWhile (\<lambda>c. c \<noteq> CHR ''='') k = k"
    by (auto simp: takeWhile_eq_all_conv)
  from assms(1) show "loggersOf (k @ ''='' @ name) = k"
    by (simp add: loggersOf_def takeWhile_tail t)
  from assms(1) have "dropWhile (\<lambda>c. c \<noteq> CHR ''='') (k @ ''='' @ name) = ''='' @ name"
    by (induction k) auto
  then show "levelOf (k @ ''='' @ name) = name"
    by (simp add: levelOf_def)
qed

lemma field_of_entry:
  assumes "namesRoundTrip sc" "entryValid sc kv"
  shows "ActivateSpec_fields sc spec (Spec_field sc kv # rest) (dl, sp) =
    ActivateSpec_fields sc spec rest (dl, AList.update (fst kv) (snd kv) sp)"
proof -
  let ?k = "fst kv" and ?name = "LevelString sc (snd kv)"
  from assms(2) have valid: "isValidLoggerName (TrimSuffix ?k CHR ''.'')"
    and "storable sc (snd kv)"
    by (simp_all add: entryValid_def)
  with assms(1) have name: "IsValidLevel sc ?name" "NameToLevel sc ?name = snd kv"
    "CHR ''='' \<notin> set ?name"
    by (simp_all add: namesRoundTrip_def)
  note k = key_chars [OF valid]
  note parts = field_parts [OF k(2) name(3)]
  have "ActivateSpec_loggers spec (snd kv) (Split ?k CHR '','') sp =
      Inr (AList.update ?k (snd kv) sp)"
    using k(3) valid by (simp add: Split_notin)
  with parts k(1) name(1,2) show ?thesis
    unfolding Spec_field_def by (simp add: fields_loggers)
qed

lemma fields_of_entries:
  assumes "namesRoundTrip sc" "\<forall>kv \<in> set kvs. entryValid sc kv"
  shows "ActivateSpec_fields sc spec (map (Spec_field sc) kvs @ rest) (dl, sp) =
    ActivateSpec_fields sc spec rest
      (dl, foldl (\<lambda>sp kv. AList.update (fst kv) (snd kv) sp) sp kvs)"
  using assms(2)
proof (induction kvs arbitrary: sp)
  case Nil
  show ?case by simp
next
  case (Cons kv kvs)
  then show ?case
    by (simp add: field_of_entry [OF assms(1)])
qed

lemma map_of_foldl_entries:
  "map_of (foldl (\<lambda>sp kv. AList.update (fst kv) (snd kv) sp) sp kvs) =
   map_of sp ++ map_of (rev kvs)"
  by (induction kvs arbitrary: sp) (simp_all add: update_conv' map_add_upd_left)

lemma insort_map:
  fixes f :: "'a \<Rightarrow> 'b :: linorder"
  shows "insort (f x) (map f ys) = map f (insort_key f x ys)"
  by (induction ys) simp_all

lemma sort_map:
  fixes f :: "'a \<Rightarrow> 'b :: linorder"
  shows "sort (map f xs) = map f (sort_key f xs)"
  by (induction xs) (simp_all add: insort_map)


subsection \<open>The round trip\<close>

lemma Spec_field_no_colon:
  assumes "namesRoundTrip sc" "entryValid sc kv"
  shows "CHR '':'' \<notin> set (Spec_field sc kv)"
  using assms by (simp add: Spec_field_def entryValid_def namesRoundTrip_def)

lemma ActivateSpec_Spec:
  assumes rt: "namesRoundTrip sc" and v: "specsValid sc m"
  shows "\<exists>sp. ActivateSpec sc (Spec sc m) m' =
      (None, m'\<lparr>defaultLevel := defaultLevel m, specs := sp, levelCache := Some Map.empty\<rparr>) \<and>
      map_of sp = map_of (specs m)"
proof -
  let ?kvs = "sort_key (Spec_field sc) (specs m)"
  let ?fs = "map (Spec_field sc) ?kvs"
  let ?d = "LevelString sc (defaultLevel m)"
  let ?sp = "foldl (\<lambda>sp kv. AList.update (fst kv) (snd kv) sp) [] ?kvs"
  from v have entries: "\<forall>kv \<in> set ?kvs. entryValid sc kv"
    and dist: "distinct (map fst (specs m))" and "storable sc (defaultLevel m)"
    by (simp_all add: specsValid_def)
  with rt have d: "IsValidLevel sc ?d" "NameToLevel sc ?d = defaultLevel m"
    "CHR '':'' \<notin> set ?d" "CHR ''='' \<notin> set ?d"
    by (simp_all add: namesRoundTrip_def)
  have spec: "Spec sc m = Join (?fs @ [?d]) CHR '':''"
    by (simp add: Spec_def sort_map)
  have "\<forall>x \<in> set (?fs @ [?d]). CHR '':'' \<notin> set x"
    using entries d(3) Spec_field_no_colon [OF rt] by auto
  then have split: "Split (Spec sc m) CHR '':'' = ?fs @ [?d]"
    unfolding spec by (intro Split_Join) simp_all
  have "ActivateSpec_fields sc (Spec sc m) (?fs @ [?d]) (InfoLevel sc, []) =
      ActivateSpec_fields sc (Spec sc m) [?d] (InfoLevel sc, ?sp)"
    using rt entries by (rule fields_of_entries)
  also have "\<dots> = Inr (defaultLevel m, ?sp)"
    using d by (simp add: fields_default)
  finally have "ActivateSpec sc (Spec sc m) m' =
      (None, m'\<lparr>defaultLevel := defaultLevel m, specs := ?sp, levelCache := Some Map.empty\<rparr>)"
    by (simp add: ActivateSpec_def split)
  moreover have "map_of ?sp = map_of (specs m)"
  proof -
    have "mset (map fst (rev ?kvs)) = mset (map fst (specs m))"
      by simp
    with dist have "distinct (map fst (rev ?kvs))"
      by (metis mset_eq_imp_distinct_iff)
    moreover have "set (rev ?kvs) = set (specs m)"
      by simp
    ultimately have "map_of (rev ?kvs) = map_of (specs m)"
      using dist by (simp add: map_of_inject_set)
    then show ?thesis
      by (simp add: map_of_foldl_entries)
  qed
  ultimately show ?thesis
    by blast
qed

lemma active_call:
  assumes "specsValid sc m \<and> cacheConsistent m \<and> levelCache m \<noteq> None"
    and "call sc c m = Some m'"
  shows "specsValid sc m' \<and> cacheConsistent m' \<and> levelCache m' \<noteq> None"
proof (cases c)
  case (CallActivateSpec spec)
  show ?thesis
  proof (cases "fst (ActivateSpec sc spec m) = None")
    case True
    with CallActivateSpec assms(2) specsValid_ActivateSpec [OF True]
      levelCache_ActivateSpec [OF True]
    show ?thesis by (auto simp: cacheConsistent_empty)
  next
    case False
    then have "snd (ActivateSpec sc spec m) = m"
      by (cases rule: ActivateSpec_cases [of sc spec m]) simp_all
    with CallActivateSpec assms show ?thesis by simp
  qed
next
  case (CallLevel loggerName)
  with assms(2) obtain level where l: "Level m loggerName = Inr (level, m')"
    by (auto split: sum.splits)
  from cacheConsistent_Level [OF _ l] assms(1) have "cacheConsistent m'"
    by simp
  moreover from l assms(1) have "specsValid sc m' \<and> levelCache m' \<noteq> None"
    by (cases rule: Level_cases [of m loggerName]) (auto simp: specsValid_def)
  ultimately show ?thesis by simp
next
  case CallDefaultLevel
  with assms show ?thesis by simp
next
  case CallSpec
  with assms show ?thesis by simp
qed

lemma active_calls:
  "specsValid sc m \<and> cacheConsistent m \<and> levelCache m \<noteq> None \<Longrightarrow>
   calls sc cs m = Some m' \<Longrightarrow>
   specsValid sc m' \<and> cacheConsistent m' \<and> levelCache m' \<noteq> None"
proof (induction cs arbitrary: m)
  case Nil
  then show ?case by simp
next
  case (Cons c cs)
  from Cons.prems(2) obtain m1 where "call sc c m = Some m1" "calls sc cs m1 = Some m'"
    by (auto split: option.splits)
  with Cons.IH [of m1] active_call [OF Cons.prems(1)] show ?case
    by blast
qed

lemma namesRoundTrip_severityScale: "namesRoundTrip severityScale"
  unfolding namesRoundTrip_def
proof (intro allI impI)
  fix level
  assume s: "storable severityScale level"
  have n: "NameToLevel severityScale name \<in> {INFO, DEBUG, WARN, ERROR}" for name
    by (simp add: severityScale_def)
  have i: "InfoLevel severityScale = INFO"
    by (simp add: severityScale_def)
  from s consider "level = InfoLevel severityScale"
    | name where "level = NameToLevel severityScale name"
    unfolding storable_def by blast
  then have "level \<in> {INFO, DEBUG, WARN, ERROR}"
  proof cases
    case 1
    with i show ?thesis by simp
  next
    case (2 name)
    with n [of name] show ?thesis by simp
  qed
  then consider "level = INFO" | "level = DEBUG" | "level = WARN" | "level = ERROR"
    by blast
  then show "IsValidLevel severityScale (LevelString severityScale level) \<and>
      NameToLevel severityScale (LevelString severityScale level) = level \<and>
      CHR '':'' \<notin> set (LevelString severityScale level) \<and>
      CHR ''='' \<notin> set (LevelString severityScale level)"
    by cases (simp_all add: severityScale_def)
qed

text \<open>
  Claim C5. Let the conversions of the severity scale round-trip. In every state that a
  successful \<open>ActivateSpec\<close>, followed by any public operations, has reached,
  \<open>ActivateSpec\<close> of the result of \<open>Spec\<close> succeeds, and in the state it leaves the
  default level and the map of overrides are the same as before, and \<open>Level\<close> returns for
  every logger name the level it returned before.
\<close>

theorem Spec_round_trip:
  assumes "namesRoundTrip sc"
    and "fst (ActivateSpec sc spec m0) = None"
    and "calls sc cs (snd (ActivateSpec sc spec m0)) = Some m"
  shows "fst (ActivateSpec sc (Spec sc m) m) = None \<and>
    DefaultLevel (snd (ActivateSpec sc (Spec sc m) m)) = DefaultLevel m \<and>
    map_of (specs (snd (ActivateSpec sc (Spec sc m) m))) = map_of (specs m) \<and>
    (\<forall>loggerName. \<exists>level m1 m2.
       Level m loggerName = Inr (level, m1) \<and>
       Level (snd (ActivateSpec sc (Spec sc m) m)) loggerName = Inr (level, m2))"
proof -
  let ?m1 = "snd (ActivateSpec sc spec m0)"
  let ?m2 = "snd (ActivateSpec sc (Spec sc m) m)"
  from assms(2) have "specsValid sc ?m1 \<and> cacheConsistent ?m1 \<and> levelCache ?m1 \<noteq> None"
    using specsValid_ActivateSpec [OF assms(2)] levelCache_ActivateSpec [OF assms(2)]
    by (simp add: cacheConsistent_empty)
  from active_calls [OF this assms(3)]
  have v: "specsValid sc m" and c: "cacheConsistent m" and n: "levelCache m \<noteq> None"
    by simp_all
  from ActivateSpec_Spec [OF assms(1) v, of m] obtain sp where
    a: "ActivateSpec sc (Spec sc m) m =
      (None, m\<lparr>defaultLevel := defaultLevel m, specs := sp, levelCache := Some Map.empty\<rparr>)"
    and sp: "map_of sp = map_of (specs m)"
    by blast
  from a have ok: "fst (ActivateSpec sc (Spec sc m) m) = None"
    and d: "defaultLevel ?m2 = defaultLevel m" and s: "specs ?m2 = sp"
    and e: "levelCache ?m2 = Some Map.empty"
    by simp_all
  have same: "calculateLevel ?m2 loggerName = calculateLevel m loggerName" for loggerName
    unfolding calculateLevel_def using d s sp by (intro loop_cong) simp_all
  have "\<exists>level m1 m2. Level m loggerName = Inr (level, m1) \<and>
       Level ?m2 loggerName = Inr (level, m2)" for loggerName
    using Level_consistent [OF c n, of loggerName]
      Level_consistent [OF cacheConsistent_empty [OF e], of loggerName] e same [of loggerName]
    by auto
  with ok d s sp show ?thesis
    by (simp add: DefaultLevel_def)
qed

theorem Spec_round_trip_witness:
  "namesRoundTrip severityScale \<and>
   fst (ActivateSpec severityScale ''a=WARN:a.b,c.=DEBUG:ERROR''
     \<lparr>defaultLevel = INFO, levelCache = None, specs = []\<rparr>) = None \<and>
   calls severityScale [CallLevel ''a.b.c'']
     (snd (ActivateSpec severityScale ''a=WARN:a.b,c.=DEBUG:ERROR''
        \<lparr>defaultLevel = INFO, levelCache = None, specs = []\<rparr>)) =
     Some \<lparr>defaultLevel = ERROR, levelCache = Some [''a.b.c'' \<mapsto> DEBUG],
       specs = [(''a'', WARN), (''a.b'', DEBUG), (''c.'', DEBUG)]\<rparr> \<and>
   Spec severityScale \<lparr>defaultLevel = ERROR, levelCache = Some [''a.b.c'' \<mapsto> DEBUG],
       specs = [(''a'', WARN), (''a.b'', DEBUG), (''c.'', DEBUG)]\<rparr> =
     ''a.b=DEBUG:a=WARN:c.=DEBUG:ERROR'' \<and>
   fst (ActivateSpec severityScale ''a.b=DEBUG:a=WARN:c.=DEBUG:ERROR''
     \<lparr>defaultLevel = ERROR, levelCache = Some [''a.b.c'' \<mapsto> DEBUG],
       specs = [(''a'', WARN), (''a.b'', DEBUG), (''c.'', DEBUG)]\<rparr>) = None \<and>
   (\<exists>level m1 m2.
      Level \<lparr>defaultLevel = ERROR, levelCache = Some [''a.b.c'' \<mapsto> DEBUG],
        specs = [(''a'', WARN), (''a.b'', DEBUG), (''c.'', DEBUG)]\<rparr> ''a.x'' = Inr (level, m1) \<and>
      Level (snd (ActivateSpec severityScale ''a.b=DEBUG:a=WARN:c.=DEBUG:ERROR''
        \<lparr>defaultLevel = ERROR, levelCache = Some [''a.b.c'' \<mapsto> DEBUG],
          specs = [(''a'', WARN), (''a.b'', DEBUG), (''c.'', DEBUG)]\<rparr>)) ''a.x'' =
        Inr (level, m2))"
proof -
  let ?init = "\<lparr>defaultLevel = INFO, levelCache = None, specs = []\<rparr> :: severity ModuleLevels"
  let ?m = "\<lparr>defaultLevel = ERROR, levelCache = Some [''a.b.c'' \<mapsto> DEBUG],
       specs = [(''a'', WARN), (''a.b'', DEBUG), (''c.'', DEBUG)]\<rparr>"
  let ?spec = "''a=WARN:a.b,c.=DEBUG:ERROR''"
  have a: "ActivateSpec severityScale ?spec ?init =
      (None, \<lparr>defaultLevel = ERROR, levelCache = Some Map.empty,
         specs = [(''a'', WARN), (''a.b'', DEBUG), (''c.'', DEBUG)]\<rparr>)"
    by (simp add: fields_eval)
  then have s: "fst (ActivateSpec severityScale ?spec ?init) = None"
    by simp
  have c: "calls severityScale [CallLevel ''a.b.c''] (snd (ActivateSpec severityScale ?spec ?init))
      = Some ?m"
    unfolding a
    by (simp add: Level_def cachedLevel_def calculateLevel_def calculateLevel_loop.simps)
  have r: "Spec severityScale ?m = ''a.b=DEBUG:a=WARN:c.=DEBUG:ERROR''"
    by (simp add: Spec_def Spec_field_def severityScale_def)
  note T = Spec_round_trip [OF namesRoundTrip_severityScale s c]
  from T have 1: "fst (ActivateSpec severityScale (Spec severityScale ?m) ?m) = None"
    by blast
  from T have 2: "\<exists>level m1 m2. Level ?m ''a.x'' = Inr (level, m1) \<and>
      Level (snd (ActivateSpec severityScale (Spec severityScale ?m) ?m)) ''a.x'' = Inr (level, m2)"
    by blast
  from namesRoundTrip_severityScale s c r 1 2 show ?thesis
    unfolding r by blast
qed

end
